theory Spec2Isabelle
  imports Complex_Main "HOL-Library.Sublist" "HOL-Library.Multiset"
begin

section \<open>JavaScript values used by the agents\<close>

text \<open>
  A JavaScript string is a sequence of UTF-16 code units; \<open>jsstring\<close> is the list of
  their numeric values. \<open>js\<close> embeds an ASCII literal. The emoji used by
  \<open>askConfirmation\<close> (U+1F44D) is the surrogate pair D83D DC4D.
\<close>

type_synonym jsstring = "nat list"

definition js :: "string \<Rightarrow> jsstring" where
  "js s = map of_char s"

definition thumbsUp :: jsstring where
  "thumbsUp = [55357, 56397]"

text \<open>
  \<open>String.prototype.trim\<close> strips WhiteSpace and LineTerminator code units from both
  ends: TAB, LF, VT, FF, CR, SP, NBSP, U+1680, U+2000..U+200A, U+2028, U+2029, U+202F,
  U+205F, U+3000 and U+FEFF.
\<close>

definition isWhiteSpace :: "nat \<Rightarrow> bool" where
  "isWhiteSpace c \<longleftrightarrow>
     c \<in> set [9, 10, 11, 12, 13, 32, 160, 5760, 8232, 8233, 8239, 8287, 12288, 65279]
     \<or> (8192 \<le> c \<and> c \<le> 8202)"

definition trim :: "jsstring \<Rightarrow> jsstring" where
  "trim s = rev (dropWhile isWhiteSpace (rev (dropWhile isWhiteSpace s)))"

text \<open>
  \<open>String.prototype.toLowerCase\<close> on the ASCII letters. The case mappings of code
  units outside ASCII are left out: none of them produces or consumes \<open>y\<close>, \<open>e\<close>,
  \<open>s\<close>, a white-space code unit or a surrogate, which are the only code units the
  agents inspect after lower-casing.
\<close>

definition lowerUnit :: "nat \<Rightarrow> nat" where
  "lowerUnit c = (if 65 \<le> c \<and> c \<le> 90 then c + 32 else c)"

definition toLowerCase :: "jsstring \<Rightarrow> jsstring" where
  "toLowerCase s = map lowerUnit s"

text \<open>\<open>s.includes(t)\<close>: \<open>t\<close> occurs in \<open>s\<close> as a contiguous run of code units.\<close>

definition js_includes :: "jsstring \<Rightarrow> jsstring \<Rightarrow> bool" where
  "js_includes s t = sublist t s"

text \<open>
  A JavaScript \<open>Map\<close> keeps its entries in insertion order with one entry per key:
  \<open>set\<close> on a present key replaces the value in place, on a new key it appends.
\<close>

type_synonym ('k, 'v) jsmap = "('k \<times> 'v) list"

fun map_set :: "('k, 'v) jsmap \<Rightarrow> 'k \<Rightarrow> 'v \<Rightarrow> ('k, 'v) jsmap" where
  "map_set [] k v = [(k, v)]"
| "map_set ((k', v') # m) k v =
     (if k' = k then (k, v) # m else (k', v') # map_set m k v)"

definition map_has :: "('k, 'v) jsmap \<Rightarrow> 'k \<Rightarrow> bool" where
  "map_has m k = (k \<in> fst ` set m)"

definition map_get :: "('k, 'v) jsmap \<Rightarrow> 'k \<Rightarrow> 'v option" where
  "map_get m k = map_of m k"

definition map_size :: "('k, 'v) jsmap \<Rightarrow> nat" where
  "map_size m = length m"

definition keys :: "('k, 'v) jsmap \<Rightarrow> 'k set" where
  "keys m = fst ` set m"

text \<open>
  \<open>Math.ceil\<close> and \<open>Math.round\<close> (halves go up), on exact quotients. The agents
  apply them to \<open>n / 2\<close> and to a mean \<open>s / k\<close> of small integers, where the double
  quotient is either exact or differs from the exact one by less than the distance to the
  next integer or half-integer, so that the result is the same.
\<close>

definition Math_ceil :: "rat \<Rightarrow> int" where
  "Math_ceil x = \<lceil>x\<rceil>"

definition Math_round :: "rat \<Rightarrow> int" where
  "Math_round x = \<lfloor>x + 1 / 2\<rfloor>"

text \<open>
  A JavaScript number is an IEEE 754 double: \<open>NaN\<close>, an infinity, or a finite value,
  kept here as the rational it denotes (the sign of zero is dropped; it does not change
  \<open>Math.ceil\<close> followed by \<open>>=\<close>). \<open>double x\<close> is the double nearest to the exact
  value \<open>x\<close>: round to the 53-bit significand at the binary exponent of \<open>x\<close> (not below
  the subnormal exponent), ties to even, overflow to infinity. \<open>asDouble\<close> reads a
  number written as a decimal, such as \<open>0.28\<close>, as the double it denotes.
\<close>

datatype jsnumber = NaN | PosInfinity | NegInfinity | Finite rat

definition pow2 :: "int \<Rightarrow> rat" where
  "pow2 k = (if 0 \<le> k then 2 ^ nat k else 1 / 2 ^ nat (- k))"

fun bitlen :: "nat \<Rightarrow> nat" where
  "bitlen n = (if n = 0 then 0 else Suc (bitlen (n div 2)))"

declare bitlen.simps [simp del]

text \<open>The binary exponent of a positive value: \<open>2 ^ ilog2 a \<le> a < 2 ^ (ilog2 a + 1)\<close>.\<close>

definition ilog2 :: "rat \<Rightarrow> int" where
  "ilog2 a = (if 1 \<le> a then int (bitlen (nat \<lfloor>a\<rfloor>)) - 1
              else - int (bitlen (nat (\<lceil>1 / a\<rceil> - 1))))"

definition roundHalfEven :: "rat \<Rightarrow> int" where
  "roundHalfEven x =
     (let f = \<lfloor>x\<rfloor>; d = x - of_int f
      in if d < 1 / 2 then f else if 1 / 2 < d then f + 1 else if even f then f else f + 1)"

definition double :: "rat \<Rightarrow> jsnumber" where
  "double x =
     (if x = 0 then Finite 0
      else let a = \<bar>x\<bar>;
               e = max (ilog2 a) (- 1022);
               q = pow2 (e - 52);
               r = of_int (roundHalfEven (a / q)) * q
           in if pow2 1024 \<le> r then (if x < 0 then NegInfinity else PosInfinity)
              else Finite (if x < 0 then - r else r))"

definition asDouble :: "jsnumber \<Rightarrow> jsnumber" where
  "asDouble x = (case x of Finite q \<Rightarrow> double q | _ \<Rightarrow> x)"

text \<open>The product of two doubles: the exact product, rounded.\<close>

fun num_times :: "jsnumber \<Rightarrow> jsnumber \<Rightarrow> jsnumber" where
  "num_times NaN y = NaN"
| "num_times x NaN = NaN"
| "num_times (Finite x) (Finite y) = double (x * y)"
| "num_times (Finite x) PosInfinity =
     (if x = 0 then NaN else if 0 < x then PosInfinity else NegInfinity)"
| "num_times (Finite x) NegInfinity =
     (if x = 0 then NaN else if 0 < x then NegInfinity else PosInfinity)"
| "num_times PosInfinity (Finite y) =
     (if y = 0 then NaN else if 0 < y then PosInfinity else NegInfinity)"
| "num_times NegInfinity (Finite y) =
     (if y = 0 then NaN else if 0 < y then NegInfinity else PosInfinity)"
| "num_times PosInfinity PosInfinity = PosInfinity"
| "num_times PosInfinity NegInfinity = NegInfinity"
| "num_times NegInfinity PosInfinity = NegInfinity"
| "num_times NegInfinity NegInfinity = PosInfinity"

text \<open>
  \<open>Math.ceil\<close> of a double is a double, and \<open>n >= y\<close> for an array length \<open>n\<close> is
  false when \<open>y\<close> is \<open>NaN\<close>.
\<close>

definition num_ceil :: "jsnumber \<Rightarrow> jsnumber" where
  "num_ceil x = (case x of Finite q \<Rightarrow> Finite (of_int \<lceil>q\<rceil>) | _ \<Rightarrow> x)"

definition num_ge :: "nat \<Rightarrow> jsnumber \<Rightarrow> bool" where
  "num_ge n y =
     (case y of NaN \<Rightarrow> False | PosInfinity \<Rightarrow> False | NegInfinity \<Rightarrow> True
      | Finite q \<Rightarrow> q \<le> of_nat n)"

section \<open>interactive-agent.ts: confirmation by majority of the roster\<close>

text \<open>
  The body of the loop of \<open>askConfirmation\<close>:
  \<^verbatim>\<open>
  const normalized = response.toLowerCase().trim()
  const isYes = normalized.includes('yes') || normalized.includes(thumbs-up)
                || normalized === 'y'
  confirmations.set(person, isYes)
  if (isYes) yesCount++
  \<close>
\<close>

definition isYes :: "jsstring \<Rightarrow> bool" where
  "isYes response =
     (let normalized = trim (toLowerCase response)
      in js_includes normalized (js ''yes'') \<or> js_includes normalized thumbsUp
         \<or> normalized = js ''y'')"

definition confirmStep ::
  "(jsstring, bool) jsmap \<times> nat \<Rightarrow> jsstring \<times> jsstring \<Rightarrow> (jsstring, bool) jsmap \<times> nat" where
  "confirmStep acc entry =
     (case acc of (confs, yesCount) \<Rightarrow>
        case entry of (person, response) \<Rightarrow>
          (map_set confs person (isYes response),
           if isYes response then yesCount + 1 else yesCount))"

text \<open>The returned object \<open>{ confirmed, responses: confirmations }\<close>.\<close>

record confirmation =
  confirmed :: bool
  confirmations :: "(jsstring, bool) jsmap"

text \<open>
  The part of \<open>askConfirmation\<close> after the replies have been collected; \<open>participants\<close>
  is the roster given to the constructor.
\<close>

definition tallyConfirmation ::
  "jsstring list \<Rightarrow> (jsstring, jsstring) jsmap \<Rightarrow> confirmation" where
  "tallyConfirmation participants replies =
     (case foldl confirmStep ([], 0) replies of (confs, yesCount) \<Rightarrow>
        \<lparr> confirmed = (int yesCount \<ge> Math_ceil (of_nat (length participants) / 2)),
          confirmations = confs \<rparr>)"

section \<open>interactive-agent.ts: collecting one reply per sender\<close>

text \<open>
  An inbound message as the watcher hands it to \<open>onNewMessage\<close>. The handler reads
  \<open>chatId\<close>, \<open>isFromMe\<close>, \<open>sender\<close>, \<open>handle\<close> and \<open>text\<close> (here \<open>msgText\<close>); \<open>sender\<close> and
  \<open>handle\<close> may be absent (\<open>None\<close>). In \<open>a || b\<close> an absent value and the empty
  string are both falsy.
\<close>

record message =
  chatId :: jsstring
  isFromMe :: bool
  sender :: "jsstring option"
  handle :: "jsstring option"
  msgText :: jsstring

definition truthy :: "jsstring option \<Rightarrow> bool" where
  "truthy v = (case v of None \<Rightarrow> False | Some s \<Rightarrow> s \<noteq> [])"

text \<open>\<open>message.sender || message.handle || 'user'\<close>\<close>

definition senderKey :: "message \<Rightarrow> jsstring" where
  "senderKey m =
     (case sender m of
        Some s \<Rightarrow> (if s \<noteq> [] then s
                   else (case handle m of
                           Some h \<Rightarrow> (if h \<noteq> [] then h else js ''user'')
                         | None \<Rightarrow> js ''user''))
      | None \<Rightarrow> (case handle m of
                   Some h \<Rightarrow> (if h \<noteq> [] then h else js ''user'')
                 | None \<Rightarrow> js ''user''))"

text \<open>A JavaScript \<open>Set\<close> of strings, in insertion order.\<close>

definition set_has :: "'a list \<Rightarrow> 'a \<Rightarrow> bool" where
  "set_has s x = (x \<in> set s)"

definition set_add :: "'a list \<Rightarrow> 'a \<Rightarrow> 'a list" where
  "set_add s x = (if x \<in> set s then s else s @ [x])"

text \<open>
  The two objects a call of \<open>waitForResponses\<close> allocates and its handler captures:
  \<open>responses\<close> (a Map) and \<open>respondedParticipants\<close> (a Set).
\<close>

record collector =
  responses :: "(jsstring, jsstring) jsmap"
  respondedParticipants :: "jsstring list"

definition newCollector :: collector where
  "newCollector = \<lparr> responses = [], respondedParticipants = [] \<rparr>"

text \<open>
  \<^verbatim>\<open>
  onNewMessage: async (message) => {
      if (message.chatId !== this.groupChatId) return
      if (message.isFromMe) return
      const sender = message.sender || message.handle || 'user'
      if (!respondedParticipants.has(sender)) {
          respondedParticipants.add(sender)
          responses.set(sender, message.text)
      }
  }
  \<close>
\<close>

definition onNewMessage :: "jsstring \<Rightarrow> collector \<Rightarrow> message \<Rightarrow> collector" where
  "onNewMessage groupChatId c message =
     (if chatId message \<noteq> groupChatId then c
      else if isFromMe message then c
      else let sender = senderKey message in
        if \<not> set_has (respondedParticipants c) sender
        then \<lparr> responses = map_set (responses c) sender (msgText message),
               respondedParticipants = set_add (respondedParticipants c) sender \<rparr>
        else c)"

text \<open>
  The process state the agent runs in: the heap of collector objects allocated so far
  (an address is an index), the handler the watcher currently holds (the address of the
  collector it captured, \<open>None\<close> when not watching), the messages sent through the
  client, and the clock \<open>Date.now()\<close> in milliseconds.
\<close>

record world =
  heap :: "collector list"
  watcher :: "nat option"
  outbox :: "(jsstring \<times> jsstring) list"
  now :: int

record agent =
  groupChatId :: jsstring
  participants :: "jsstring list"

text \<open>The watcher hands a new message to the handler it holds, if any.\<close>

definition deliver :: "jsstring \<Rightarrow> world \<Rightarrow> message \<Rightarrow> world" where
  "deliver gid w message =
     (case watcher w of
        None \<Rightarrow> w
      | Some a \<Rightarrow>
          if a < length (heap w)
          then w\<lparr> heap := (heap w)[a := onNewMessage gid (heap w ! a) message] \<rparr>
          else w)"

text \<open>
  What happens while the agent is suspended: the messages in \<open>arrivals\<close> are delivered in
  order, and the clock advances by the requested delay plus a non-negative \<open>lag\<close>.
\<close>

record tick =
  arrivals :: "message list"
  lag :: nat

definition suspend :: "jsstring \<Rightarrow> int \<Rightarrow> tick \<Rightarrow> world \<Rightarrow> world" where
  "suspend gid delay t w =
     (foldl (deliver gid) w (arrivals t))\<lparr> now := now w + delay + int (lag t) \<rparr>"

text \<open>
  \<^verbatim>\<open>
  while (respondedParticipants.size < 1) {
      if (Date.now() - startTime > timeout) break
      await new Promise(resolve => setTimeout(resolve, 1000))
  }
  \<close>
  \<open>a\<close> is the address of this call's collector, \<open>env k\<close> what happens during the
  \<open>k\<close>-th suspension.
\<close>

function pollLoop ::
  "jsstring \<Rightarrow> int \<Rightarrow> int \<Rightarrow> (nat \<Rightarrow> tick) \<Rightarrow> nat \<Rightarrow> nat \<Rightarrow> world \<Rightarrow> world" where
  "pollLoop gid timeout startTime env a k w =
     (if length (respondedParticipants (heap w ! a)) < 1
      then (if now w - startTime > timeout then w
            else pollLoop gid timeout startTime env a (k + 1) (suspend gid 1000 (env k) w))
      else w)"
  by pat_completeness auto
termination
  by (relation "measure (\<lambda>(gid, timeout, startTime, env, a, k, w).
                   nat (timeout + startTime + 1 - now w))")
     (auto simp: suspend_def)

declare pollLoop.simps [simp del]

text \<open>
  \<open>waitForResponses\<close>: allocate the Map and the Set, read the clock, install the handler
  (\<open>env 0\<close> is what happens while \<open>startWatching\<close> is awaited), poll, remove the
  handler, return the Map.
\<close>

definition waitForResponses ::
  "agent \<Rightarrow> int \<Rightarrow> (nat \<Rightarrow> tick) \<Rightarrow> world \<Rightarrow> (jsstring, jsstring) jsmap \<times> world" where
  "waitForResponses ag timeout env w =
     (let a = length (heap w);
          startTime = now w;
          w1 = w\<lparr> heap := heap w @ [newCollector], watcher := Some a \<rparr>;
          w2 = suspend (groupChatId ag) 0 (env 0) w1;
          w3 = pollLoop (groupChatId ag) timeout startTime env a 1 w2;
          w4 = w3\<lparr> watcher := None \<rparr>
      in (responses (heap w4 ! a), w4))"

datatype error = ChannelSendFailure

text \<open>\<open>client.send\<close> either appends to the outbox or throws (\<open>sendOk = False\<close>).\<close>

definition send :: "bool \<Rightarrow> jsstring \<Rightarrow> jsstring \<Rightarrow> world \<Rightarrow> error + world" where
  "send sendOk target body w =
     (if sendOk then Inr (w\<lparr> outbox := outbox w @ [(target, body)] \<rparr>)
      else Inl ChannelSendFailure)"

definition askGroupQuestion ::
  "agent \<Rightarrow> jsstring \<Rightarrow> int \<Rightarrow> bool \<Rightarrow> (nat \<Rightarrow> tick) \<Rightarrow> world
     \<Rightarrow> error + (jsstring, jsstring) jsmap \<times> world" where
  "askGroupQuestion ag question timeout sendOk env w =
     (case send sendOk (groupChatId ag) question w of
        Inl e \<Rightarrow> Inl e
      | Inr w' \<Rightarrow> Inr (waitForResponses ag timeout env w'))"

definition askConfirmation ::
  "agent \<Rightarrow> jsstring \<Rightarrow> bool \<Rightarrow> (nat \<Rightarrow> tick) \<Rightarrow> world \<Rightarrow> error + confirmation \<times> world" where
  "askConfirmation ag question sendOk env w =
     (case send sendOk (groupChatId ag) (question @ [10, 10] @ js ''Reply with YES or NO'') w of
        Inl e \<Rightarrow> Inl e
      | Inr w' \<Rightarrow>
          (case waitForResponses ag 180000 env w' of
             (replies, w'') \<Rightarrow> Inr (tallyConfirmation (participants ag) replies, w'')))"

text \<open>
  Notions for stating what a stage observes. A message is accepted when it passes the
  two guards of the handler; it is anonymous when it carries neither a sender nor a
  handle. Poll \<open>n\<close> of \<open>waitForResponses\<close> comes after the suspensions \<open>0..n\<close>
  (suspension 0 is the wait for \<open>startWatching\<close>, the others are the one-second
  sleeps): \<open>delivered env n\<close> are the messages handed over by then, \<open>elapsed env n\<close>
  is the time since the start.
\<close>

definition accepted :: "jsstring \<Rightarrow> message \<Rightarrow> bool" where
  "accepted gid m = (chatId m = gid \<and> \<not> isFromMe m)"


fun delivered :: "(nat \<Rightarrow> tick) \<Rightarrow> nat \<Rightarrow> message list" where
  "delivered env 0 = arrivals (env 0)"
| "delivered env (Suc n) = delivered env n @ arrivals (env (Suc n))"

fun elapsed :: "(nat \<Rightarrow> tick) \<Rightarrow> nat \<Rightarrow> int" where
  "elapsed env 0 = int (lag (env 0))"
| "elapsed env (Suc n) = elapsed env n + 1000 + int (lag (env (Suc n)))"

definition collected :: "jsstring \<Rightarrow> (nat \<Rightarrow> tick) \<Rightarrow> nat \<Rightarrow> collector" where
  "collected gid env n = foldl (onNewMessage gid) newCollector (delivered env n)"

text \<open>
  The handler keeps the Set and the keys of the Map equal, one entry per key.
\<close>

definition collector_inv :: "collector \<Rightarrow> bool" where
  "collector_inv c \<longleftrightarrow>
     respondedParticipants c = map fst (responses c) \<and> distinct (map fst (responses c))"

text \<open>The state at poll \<open>n\<close>, when the handler capturing address \<open>a\<close> is installed in \<open>w1\<close>.\<close>

fun atPoll :: "jsstring \<Rightarrow> (nat \<Rightarrow> tick) \<Rightarrow> world \<Rightarrow> nat \<Rightarrow> world" where
  "atPoll gid env w1 0 = suspend gid 0 (env 0) w1"
| "atPoll gid env w1 (Suc n) = suspend gid 1000 (env (Suc n)) (atPoll gid env w1 n)"

text \<open>The condition under which the loop stops polling.\<close>

definition finished :: "int \<Rightarrow> int \<Rightarrow> nat \<Rightarrow> world \<Rightarrow> bool" where
  "finished timeout startTime a w \<longleftrightarrow>
     \<not> length (respondedParticipants (heap w ! a)) < 1 \<or> now w - startTime > timeout"

text \<open>Concrete inputs for the examples: a group chat, replies to it, and a quiet start.\<close>

definition exampleAgent :: agent where
  "exampleAgent =
     \<lparr> groupChatId = js ''chat1'', participants = [js ''p1'', js ''p2'', js ''p3'', js ''p4''] \<rparr>"

definition reply :: "string \<Rightarrow> string \<Rightarrow> message" where
  "reply who what =
     \<lparr> chatId = js ''chat1'', isFromMe = False, sender = Some (js who), handle = None,
       msgText = js what \<rparr>"

definition anonymousReply :: "string \<Rightarrow> message" where
  "anonymousReply what =
     \<lparr> chatId = js ''chat1'', isFromMe = False, sender = None, handle = None,
       msgText = js what \<rparr>"

definition idleWorld :: world where
  "idleWorld = \<lparr> heap = [], watcher = None, outbox = [], now = 0 \<rparr>"

definition arrivingAt :: "nat \<Rightarrow> message list \<Rightarrow> nat \<Rightarrow> tick" where
  "arrivingAt k ms = (\<lambda>j. \<lparr> arrivals = (if j = k then ms else []), lag = 0 \<rparr>)"

section \<open>calendar-oauth.ts: connections and the wait for a quorum\<close>

record CalendarConnection =
  email :: jsstring
  accessToken :: "jsstring option"
  refreshToken :: "jsstring option"
  connectedAt :: int

text \<open>
  The fields of \<open>CalendarOAuthManager\<close> that the routes and \<open>waitForConnections\<close>
  read or write, with the notifications sent to the group and the clock. \<open>notifyChat\<close>
  is the group chat to notify, set once \<open>imessageClient\<close> and \<open>groupChatId\<close> both are.
\<close>

record manager =
  connections :: "(jsstring, CalendarConnection) jsmap"
  expectedParticipants :: "jsstring list option"
  notifyChat :: "jsstring option"
  serverUp :: bool
  notices :: "(jsstring \<times> jsstring \<times> nat) list"
  clock :: int

text \<open>
  A request to \<open>/oauth/callback\<close>: the query parameters \<open>code\<close> and \<open>state\<close>, the
  outcome of the token exchange (\<open>None\<close> when \<open>getToken\<close> throws), and whether the
  notification to the group can be sent.
\<close>

record tokens =
  access_token :: "jsstring option"
  refresh_token :: "jsstring option"

record callback =
  code :: "jsstring option"
  state :: "jsstring option"
  exchange :: "tokens option"
  noticeOk :: bool

datatype page = SuccessPage jsstring | ErrorPage jsstring

definition oauthCallback :: "callback \<Rightarrow> manager \<Rightarrow> page \<times> manager" where
  "oauthCallback req m =
     (if \<not> truthy (code req) then (ErrorPage (js ''No authorization code received''), m)
      else if \<not> truthy (state req) then (ErrorPage (js ''No participant selected''), m)
      else
        (case exchange req of
           None \<Rightarrow> (ErrorPage (js ''Failed to connect calendar''), m)
         | Some tk \<Rightarrow>
             (case state req of
                None \<Rightarrow> (ErrorPage (js ''No participant selected''), m)
              | Some selectedEmail \<Rightarrow>
                  let m1 = m\<lparr> connections :=
                              map_set (connections m) selectedEmail
                                \<lparr> email = selectedEmail,
                                  accessToken = access_token tk,
                                  refreshToken = refresh_token tk,
                                  connectedAt = clock m \<rparr> \<rparr>
                  in (case notifyChat m1 of
                        None \<Rightarrow> (SuccessPage selectedEmail, m1)
                      | Some chat \<Rightarrow>
                          if noticeOk req
                          then (SuccessPage selectedEmail,
                                m1\<lparr> notices := notices m1 @
                                      [(chat, selectedEmail, map_size (connections m1))] \<rparr>)
                          else (ErrorPage (js ''Failed to connect calendar''), m1)))))"

text \<open>The other entry points of the class, as far as they touch the fields above.\<close>

definition getConnections :: "manager \<Rightarrow> (jsstring, CalendarConnection) jsmap" where
  "getConnections m = connections m"

definition getAuthClientForUser :: "manager \<Rightarrow> jsstring \<Rightarrow> tokens option" where
  "getAuthClientForUser m e =
     (case map_get (connections m) e of
        None \<Rightarrow> None
      | Some c \<Rightarrow> Some \<lparr> access_token = accessToken c, refresh_token = refreshToken c \<rparr>)"

definition statusPage :: "manager \<Rightarrow> nat \<times> (jsstring \<times> int) list" where
  "statusPage m =
     (length (map snd (connections m)),
      map (\<lambda>c. (email c, connectedAt c)) (map snd (connections m)))"

definition startServer :: "manager \<Rightarrow> manager" where
  "startServer m = m\<lparr> serverUp := True \<rparr>"

definition stopServer :: "manager \<Rightarrow> manager" where
  "stopServer m = (if serverUp m then m\<lparr> serverUp := False \<rparr> else m)"

text \<open>
  \<open>sendConnectionLinkToGroup\<close> stores the client and the chat id, starts the server and
  sends the link; when the send throws, the fields stay set. The result pairs the error,
  if any, with the manager.
\<close>

definition sendConnectionLinkToGroup ::
  "jsstring \<Rightarrow> bool \<Rightarrow> manager \<Rightarrow> error option \<times> manager" where
  "sendConnectionLinkToGroup chat sendOk m =
     (let m1 = startServer (m\<lparr> notifyChat := (if chat \<noteq> [] then Some chat else None) \<rparr>)
      in (if sendOk then None else Some ChannelSendFailure, m1))"

text \<open>
  What happens while \<open>waitForConnections\<close> sleeps: the callback requests in \<open>requests\<close>
  are served in order, and the clock advances by the delay plus a non-negative lag.
\<close>

record otick =
  requests :: "callback list"
  olag :: nat

definition serve :: "manager \<Rightarrow> callback \<Rightarrow> manager" where
  "serve m req = snd (oauthCallback req m)"

definition osuspend :: "int \<Rightarrow> otick \<Rightarrow> manager \<Rightarrow> manager" where
  "osuspend delay t m =
     (foldl serve m (requests t))\<lparr> clock := clock m + delay + int (olag t) \<rparr>"

text \<open>\<open>expectedEmails.filter(email => this.connections.has(email))\<close>\<close>

definition connectedEmails :: "jsstring list \<Rightarrow> manager \<Rightarrow> jsstring list" where
  "connectedEmails expectedEmails m = filter (map_has (connections m)) expectedEmails"

text \<open>
  \<^verbatim>\<open>
  while (true) {
      const connected = expectedEmails.filter(email => this.connections.has(email))
      if (connected.length >= minRequired) break
      if (Date.now() - startTime > timeout) break
      await new Promise(resolve => setTimeout(resolve, 2000))
  }
  \<close>
\<close>

function connectionLoop ::
  "jsstring list \<Rightarrow> jsnumber \<Rightarrow> int \<Rightarrow> int \<Rightarrow> (nat \<Rightarrow> otick) \<Rightarrow> nat \<Rightarrow> manager
     \<Rightarrow> manager" where
  "connectionLoop expectedEmails minRequired timeout startTime env k m =
     (if num_ge (length (connectedEmails expectedEmails m)) minRequired then m
      else if clock m - startTime > timeout then m
      else connectionLoop expectedEmails minRequired timeout startTime env (k + 1)
             (osuspend 2000 (env k) m))"
  by pat_completeness auto
termination
  by (relation "measure (\<lambda>(expectedEmails, minRequired, timeout, startTime, env, k, m).
                   nat (timeout + startTime + 1 - clock m))")
     (auto simp: osuspend_def)

declare connectionLoop.simps [simp del]

text \<open>
  \<open>Math.ceil(expectedEmails.length * minThreshold)\<close>: the length is converted to a
  double, multiplied with the threshold in double arithmetic, and the rounded product is
  rounded up to an integer.
\<close>

definition minRequiredOf :: "nat \<Rightarrow> jsnumber \<Rightarrow> jsnumber" where
  "minRequiredOf n minThreshold =
     num_ceil (num_times (double (of_nat n)) (asDouble minThreshold))"

text \<open>\<open>waitForConnections\<close> returns \<open>this.connections\<close>.\<close>

definition waitForConnections ::
  "jsstring list \<Rightarrow> int \<Rightarrow> jsnumber \<Rightarrow> (nat \<Rightarrow> otick) \<Rightarrow> manager
     \<Rightarrow> (jsstring, CalendarConnection) jsmap \<times> manager" where
  "waitForConnections expectedEmails timeout minThreshold env m =
     (let m1 = m\<lparr> expectedParticipants := Some expectedEmails \<rparr>;
          startTime = clock m1;
          minRequired = minRequiredOf (length expectedEmails) minThreshold;
          m2 = connectionLoop expectedEmails minRequired timeout startTime env 0 m1
      in (connections m2, m2))"

text \<open>The constructor starts with an empty Map.\<close>

definition newManager :: "int \<Rightarrow> manager" where
  "newManager t =
     \<lparr> connections = [], expectedParticipants = None, notifyChat = None, serverUp = False,
       notices = [], clock = t \<rparr>"

text \<open>
  Everything that can happen to a manager: a request to the callback route, a call of one
  of the methods, a read-only route or getter, or time passing.
\<close>

datatype operation =
    OAuthCallback callback
  | WaitForConnections "jsstring list" int jsnumber "nat \<Rightarrow> otick"
  | SendConnectionLinkToGroup jsstring bool
  | StartServer
  | StopServer
  | LandingPage
  | AuthGoogle "jsstring option"
  | StatusPage
  | GetConnections
  | GetAuthClientForUser jsstring
  | Elapse nat

fun perform :: "manager \<Rightarrow> operation \<Rightarrow> manager" where
  "perform m (OAuthCallback req) = snd (oauthCallback req m)"
| "perform m (WaitForConnections expectedEmails timeout minThreshold env) =
     snd (waitForConnections expectedEmails timeout minThreshold env m)"
| "perform m (SendConnectionLinkToGroup chat sendOk) =
     snd (sendConnectionLinkToGroup chat sendOk m)"
| "perform m StartServer = startServer m"
| "perform m StopServer = stopServer m"
| "perform m LandingPage = m"
| "perform m (AuthGoogle e) = m"
| "perform m StatusPage = m"
| "perform m GetConnections = m"
| "perform m (GetAuthClientForUser e) = m"
| "perform m (Elapse d) = m\<lparr> clock := clock m + int d \<rparr>"

text \<open>
  Poll \<open>n\<close> of \<open>waitForConnections\<close> comes after \<open>n\<close> two-second sleeps:
  \<open>managerAt env m n\<close> is the manager then, \<open>waited env n\<close> the time since the start,
  and \<open>quorum\<close> the first exit condition of the loop.
\<close>

fun managerAt :: "(nat \<Rightarrow> otick) \<Rightarrow> manager \<Rightarrow> nat \<Rightarrow> manager" where
  "managerAt env m 0 = m"
| "managerAt env m (Suc n) = osuspend 2000 (env n) (managerAt env m n)"

fun waited :: "(nat \<Rightarrow> otick) \<Rightarrow> nat \<Rightarrow> int" where
  "waited env 0 = 0"
| "waited env (Suc n) = waited env n + 2000 + int (olag (env n))"

definition quorum :: "jsstring list \<Rightarrow> jsnumber \<Rightarrow> manager \<Rightarrow> bool" where
  "quorum expectedEmails minRequired m
     \<longleftrightarrow> num_ge (length (connectedEmails expectedEmails m)) minRequired"

text \<open>Concrete inputs for the examples: a successful callback for a claimed identity.\<close>

definition authorize :: "string \<Rightarrow> callback" where
  "authorize who =
     \<lparr> code = Some (js ''code''), state = Some (js who),
       exchange = Some \<lparr> access_token = Some (js ''at''), refresh_token = Some (js ''rt'') \<rparr>,
       noticeOk = True \<rparr>"

definition requestsAt :: "nat \<Rightarrow> callback list \<Rightarrow> nat \<Rightarrow> otick" where
  "requestsAt k reqs = (\<lambda>j. \<lparr> requests = (if j = k then reqs else []), olag = 0 \<rparr>)"

section \<open>clean-interactive-planner.ts: choosing the date\<close>

text \<open>
  \<open>parseInt(s)\<close> without a radix: skip leading white space, read an optional sign, skip
  a \<open>0x\<close>/\<open>0X\<close> prefix (the radix is then 16, otherwise 10), and read the longest run
  of digits; no digit gives \<open>NaN\<close>, here \<open>None\<close>. The result is kept exact (the
  double differs only for numbers far outside the range the planner accepts).
\<close>

definition digitValue :: "nat \<Rightarrow> nat option" where
  "digitValue c =
     (if 48 \<le> c \<and> c \<le> 57 then Some (c - 48)
      else if 97 \<le> c \<and> c \<le> 122 then Some (c - 87)
      else if 65 \<le> c \<and> c \<le> 90 then Some (c - 55)
      else None)"

definition isDigit :: "nat \<Rightarrow> nat \<Rightarrow> bool" where
  "isDigit radix c = (case digitValue c of None \<Rightarrow> False | Some d \<Rightarrow> d < radix)"

definition digitsValue :: "nat \<Rightarrow> jsstring \<Rightarrow> nat" where
  "digitsValue radix z = foldl (\<lambda>acc c. acc * radix + (case digitValue c of None \<Rightarrow> 0 | Some d \<Rightarrow> d)) 0 z"

definition parseInt :: "jsstring \<Rightarrow> int option" where
  "parseInt inputString =
     (let s0 = dropWhile isWhiteSpace inputString;
          negative = (s0 \<noteq> [] \<and> hd s0 = 45);
          s1 = (if s0 \<noteq> [] \<and> (hd s0 = 43 \<or> hd s0 = 45) then tl s0 else s0);
          hex = (length s1 \<ge> 2 \<and> hd s1 = 48 \<and> (hd (tl s1) = 120 \<or> hd (tl s1) = 88));
          radix = (if hex then 16 else 10);
          s2 = (if hex then drop 2 s1 else s1);
          z = takeWhile (isDigit radix) s2
      in if z = [] then None
         else Some ((if negative then - 1 else 1) * int (digitsValue radix z)))"

text \<open>
  \<^verbatim>\<open>
  const choices = Array.from(dateChoices.values())
      .map(c => parseInt(c.trim()))
      .filter(c => c >= 1 && c <= 3)
  const chosenIndex = choices.length > 0
      ? Math.round(choices.reduce((a, b) => a + b) / choices.length) - 1 : 0
  \<close>
  A comparison with \<open>NaN\<close> is false, and \<open>NaN\<close> is absorbing for \<open>+\<close>, \<open>/\<close>,
  \<open>Math.round\<close> and \<open>-\<close>.
\<close>

definition inRange :: "int option \<Rightarrow> bool" where
  "inRange c = (case c of None \<Rightarrow> False | Some v \<Rightarrow> v \<ge> 1 \<and> v \<le> 3)"

definition num_add :: "int option \<Rightarrow> int option \<Rightarrow> int option" where
  "num_add a b = (case a of None \<Rightarrow> None | Some x \<Rightarrow> (case b of None \<Rightarrow> None | Some y \<Rightarrow> Some (x + y)))"

definition dateChoices :: "jsstring list \<Rightarrow> int option list" where
  "dateChoices replies = filter inRange (map (\<lambda>c. parseInt (trim c)) replies)"

definition chosenIndex :: "jsstring list \<Rightarrow> int option" where
  "chosenIndex replies =
     (case dateChoices replies of
        [] \<Rightarrow> Some 0
      | c # cs \<Rightarrow>
          (case foldl num_add c cs of
             None \<Rightarrow> None
           | Some t \<Rightarrow> Some (Math_round (of_int t / of_nat (length (c # cs))) - 1)))"

text \<open>
  The aggregation as the specification words it: the replies that parse to an integer in
  \<open>[1, optionCount]\<close>, in the order of the replies.
\<close>

definition validValues :: "int \<Rightarrow> jsstring list \<Rightarrow> int list" where
  "validValues optionCount replies =
     filter (\<lambda>v. 1 \<le> v \<and> v \<le> optionCount)
       (List.map_filter (\<lambda>c. parseInt (trim c)) replies)"

section \<open>Properties of the JavaScript values\<close>

lemma sublist_dropWhile:
  assumes "n \<noteq> []" "\<not> P (hd n)"
  shows "sublist n (dropWhile P s) \<longleftrightarrow> sublist n s"
proof (induction s)
  case Nil
  show ?case by simp
next
  case (Cons y ys)
  show ?case
  proof (cases "P y")
    case True
    have "\<not> prefix n (y # ys)"
      using assms True by (cases n) auto
    then show ?thesis using True Cons by (simp add: sublist_Cons_right)
  next
    case False
    then show ?thesis by simp
  qed
qed

lemma sublist_trim:
  assumes "n \<noteq> []" "\<not> isWhiteSpace (hd n)" "\<not> isWhiteSpace (last n)"
  shows "sublist n (trim s) \<longleftrightarrow> sublist n s"
proof -
  have r: "rev n \<noteq> []" "\<not> isWhiteSpace (hd (rev n))"
    using assms by (simp_all add: hd_rev)
  have "sublist n (trim s) \<longleftrightarrow> sublist (rev n) (dropWhile isWhiteSpace (rev (dropWhile isWhiteSpace s)))"
    unfolding trim_def by (metis sublist_rev rev_rev_ident)
  also have "\<dots> \<longleftrightarrow> sublist (rev n) (rev (dropWhile isWhiteSpace s))"
    by (rule sublist_dropWhile[of "rev n" isWhiteSpace, OF r])
  also have "\<dots> \<longleftrightarrow> sublist n (dropWhile isWhiteSpace s)"
    by simp
  also have "\<dots> \<longleftrightarrow> sublist n s"
    by (rule sublist_dropWhile[of n isWhiteSpace, OF assms(1,2)])
  finally show ?thesis .
qed

lemma sublist_map_fixed:
  assumes "\<And>c. f c \<in> set n \<Longrightarrow> f c = c"
  shows "sublist n (map f s) \<Longrightarrow> sublist n s"
proof -
  assume "sublist n (map f s)"
  then obtain ps ss where "map f s = ps @ n @ ss" by (auto simp: sublist_def)
  then have "\<exists>us vs. s = us @ vs \<and> ps = map f us \<and> n @ ss = map f vs"
    by (simp only: map_eq_append_conv)
  then obtain a t where 1: "s = a @ t" and 2: "n @ ss = map f t"
    by blast
  from 2 have "\<exists>us vs. t = us @ vs \<and> n = map f us \<and> ss = map f vs"
    by (simp only: append_eq_map_conv)
  then obtain b c where 3: "t = b @ c" and b: "map f b = n"
    by blast
  have s: "s = a @ b @ c" using 1 3 by simp
  have "map f b = b"
  proof (rule map_idI)
    fix x assume "x \<in> set b"
    then have "f x \<in> set n" using b by auto
    then show "f x = x" by (rule assms)
  qed
  then have "b = n" using b by simp
  then show ?thesis using s by (auto simp: sublist_def)
qed

lemma sublist_map_fixed':
  assumes "\<And>c. c \<in> set n \<Longrightarrow> f c = c"
  shows "sublist n s \<Longrightarrow> sublist n (map f s)"
proof -
  assume "sublist n s"
  then have "sublist (map f n) (map f s)" by (rule map_mono_sublist)
  moreover have "map f n = n" by (rule map_idI) (rule assms)
  ultimately show ?thesis by simp
qed

lemma thumbsUp_lower: "sublist thumbsUp (toLowerCase s) \<longleftrightarrow> sublist thumbsUp s"
proof
  assume "sublist thumbsUp (toLowerCase s)"
  then show "sublist thumbsUp s"
    unfolding toLowerCase_def
    by (rule sublist_map_fixed[rotated]) (auto simp: thumbsUp_def lowerUnit_def split: if_splits)
next
  assume "sublist thumbsUp s"
  then show "sublist thumbsUp (toLowerCase s)"
    unfolding toLowerCase_def
    by (rule sublist_map_fixed'[rotated]) (auto simp: thumbsUp_def lowerUnit_def)
qed

lemma js_yes: "js ''yes'' = [121, 101, 115]" by (simp add: js_def)
lemma js_y: "js ''y'' = [121]" by (simp add: js_def)


lemma map_set_fresh: "k \<notin> fst ` set m \<Longrightarrow> map_set m k v = m @ [(k, v)]"
  by (induction m) auto

lemma set_map_set: "fst ` set (map_set m k v) = insert k (fst ` set m)"
  by (induction m) (auto simp: rev_image_eqI split: if_splits)

lemma distinct_map_set: "distinct (map fst m) \<Longrightarrow> distinct (map fst (map_set m k v))"
proof (induction m)
  case Nil
  show ?case by simp
next
  case (Cons e m)
  obtain k' v' where e: "e = (k', v')" by (cases e)
  have "k' \<noteq> k \<Longrightarrow> k' \<notin> fst ` set (map_set m k v)"
    using Cons.prems e by (simp add: set_map_set)
  then show ?case using Cons e by auto
qed

lemma map_of_map_set: "map_of (map_set m k v) = (map_of m)(k \<mapsto> v)"
  by (induction m) (auto simp: fun_eq_iff)

lemma length_map_set:
  "length (map_set m k v) = (if k \<in> fst ` set m then length m else Suc (length m))"
  by (induction m) (auto simp: rev_image_eqI)

lemma foldl_confirmStep:
  "distinct (map fst replies) \<Longrightarrow> fst ` set confs \<inter> fst ` set replies = {} \<Longrightarrow>
   foldl confirmStep (confs, n) replies =
     (confs @ map (\<lambda>(person, response). (person, isYes response)) replies,
      n + length (filter (\<lambda>(person, response). isYes response) replies))"
proof (induction replies arbitrary: confs n)
  case Nil
  show ?case by simp
next
  case (Cons e replies)
  obtain p r where e: "e = (p, r)" by (cases e)
  have fresh: "p \<notin> fst ` set confs" using Cons.prems(2) e by auto
  have step: "confirmStep (confs, n) e = (confs @ [(p, isYes r)], if isYes r then n + 1 else n)"
    using fresh by (simp add: confirmStep_def e map_set_fresh)
  have d: "distinct (map fst replies)" using Cons.prems(1) by simp
  have i: "fst ` set (confs @ [(p, isYes r)]) \<inter> fst ` set replies = {}"
    using Cons.prems e by auto
  show ?case
    unfolding foldl_Cons step Cons.IH[OF d i] by (simp add: e)
qed

lemma yesCount_any:
  "snd (foldl confirmStep (confs, n) replies) =
     n + length (filter (\<lambda>(person, response). isYes response) replies)"
  by (induction replies arbitrary: confs n) (auto simp: confirmStep_def split: prod.splits)

lemma Math_ceil_half: "Math_ceil (of_nat n / 2) = (int n + 1) div 2"
proof -
  have "\<lceil>(of_int (int n) :: rat) / of_int 2\<rceil> = - ((- int n) div 2)"
    by (simp only: ceiling_divide_eq_div)
  then show ?thesis unfolding Math_ceil_def by simp
qed

lemma tallyConfirmation_eq:
  assumes "distinct (map fst replies)"
  shows "tallyConfirmation roster replies =
           \<lparr> confirmed = ((int (length roster) + 1) div 2
                           \<le> int (length (filter (\<lambda>(person, response). isYes response) replies))),
             confirmations = map (\<lambda>(person, response). (person, isYes response)) replies \<rparr>"
  using foldl_confirmStep[OF assms, of "[]" 0]
  by (simp add: tallyConfirmation_def Math_ceil_half)

lemma count_true:
  "length (filter snd (map (\<lambda>(person, response). (person, isYes response)) replies))
     = length (filter (\<lambda>(person, response). isYes response) replies)"
  by (induction replies) auto


lemma lowerUnit_space: "isWhiteSpace (lowerUnit c) \<longleftrightarrow> isWhiteSpace c"
  by (auto simp: lowerUnit_def isWhiteSpace_def)

lemma lowerUnit_y: "lowerUnit c = 121 \<longleftrightarrow> c = 121 \<or> c = 89"
  by (auto simp: lowerUnit_def)

lemma trim_padded:
  assumes "list_all isWhiteSpace a" "\<not> isWhiteSpace c" "list_all isWhiteSpace b"
  shows "trim (a @ [c] @ b) = [c]"
proof -
  have 1: "dropWhile isWhiteSpace (a @ [c] @ b) = [c] @ b"
    using assms(1,2) by (simp add: dropWhile_append list_all_iff)
  have 2: "dropWhile isWhiteSpace (rev b @ [c]) = [c]"
    using assms(2,3) by (simp add: dropWhile_append list_all_iff)
  show ?thesis unfolding trim_def 1 using 2 by simp
qed

lemma trim_singleton:
  assumes "trim s = [c]"
  shows "\<exists>a b. s = a @ [c] @ b \<and> list_all isWhiteSpace a \<and> list_all isWhiteSpace b"
proof -
  let ?d = "dropWhile isWhiteSpace s"
  have "dropWhile isWhiteSpace (rev ?d) = [c]"
    using assms unfolding trim_def by (metis rev_singleton_conv rev_rev_ident)
  then have "rev ?d = takeWhile isWhiteSpace (rev ?d) @ [c]"
    by (metis takeWhile_dropWhile_id)
  then have d: "?d = [c] @ rev (takeWhile isWhiteSpace (rev ?d))"
    by (metis rev_append rev_rev_ident rev_singleton_conv append_Cons append_Nil)
  have s: "s = takeWhile isWhiteSpace s @ ?d" by simp
  have a: "list_all isWhiteSpace (takeWhile isWhiteSpace s)"
    by (simp add: list_all_iff) (meson set_takeWhileD)
  have b: "list_all isWhiteSpace (rev (takeWhile isWhiteSpace (rev ?d)))"
    by (simp add: list_all_iff) (meson set_takeWhileD)
  show ?thesis using s d a b by metis
qed

lemma exact_token_y:
  "trim (toLowerCase r) = js ''y'' \<longleftrightarrow>
     (\<exists>a c b. r = a @ [c] @ b \<and> list_all isWhiteSpace a \<and> (c = 121 \<or> c = 89)
              \<and> list_all isWhiteSpace b)"
proof
  assume "trim (toLowerCase r) = js ''y''"
  then have "trim (map lowerUnit r) = [121]" by (simp add: toLowerCase_def js_def)
  then obtain a' b' where s: "map lowerUnit r = a' @ [121] @ b'"
    and a': "list_all isWhiteSpace a'" and b': "list_all isWhiteSpace b'"
    using trim_singleton by blast
  from s have "\<exists>us vs. r = us @ vs \<and> a' = map lowerUnit us \<and> [121] @ b' = map lowerUnit vs"
    by (simp only: map_eq_append_conv)
  then obtain a t where 1: "r = a @ t" "a' = map lowerUnit a" "[121] @ b' = map lowerUnit t"
    by blast
  from 1(3) obtain c b where 2: "t = c # b" "lowerUnit c = 121" "b' = map lowerUnit b"
    by (cases t) auto
  have "list_all isWhiteSpace a" using a' 1(2) by (simp add: list_all_iff lowerUnit_space)
  moreover have "list_all isWhiteSpace b" using b' 2(3) by (simp add: list_all_iff lowerUnit_space)
  moreover have "c = 121 \<or> c = 89" using 2(2) by (simp add: lowerUnit_y)
  moreover have "r = a @ [c] @ b" using 1(1) 2(1) by simp
  ultimately show "\<exists>a c b. r = a @ [c] @ b \<and> list_all isWhiteSpace a \<and> (c = 121 \<or> c = 89)
              \<and> list_all isWhiteSpace b" by blast
next
  assume "\<exists>a c b. r = a @ [c] @ b \<and> list_all isWhiteSpace a \<and> (c = 121 \<or> c = 89)
              \<and> list_all isWhiteSpace b"
  then obtain a c b where r: "r = a @ [c] @ b" and a: "list_all isWhiteSpace a"
    and c: "c = 121 \<or> c = 89" and b: "list_all isWhiteSpace b" by blast
  have l: "toLowerCase r = map lowerUnit a @ [121] @ map lowerUnit b"
    using r c by (auto simp: toLowerCase_def lowerUnit_def)
  have la: "list_all isWhiteSpace (map lowerUnit a)"
    using a by (simp add: list_all_iff lowerUnit_space)
  have lb: "list_all isWhiteSpace (map lowerUnit b)"
    using b by (simp add: list_all_iff lowerUnit_space)
  have ny: "\<not> isWhiteSpace 121" by (simp add: isWhiteSpace_def)
  have "trim (map lowerUnit a @ [121] @ map lowerUnit b) = [121]"
    by (rule trim_padded[OF la ny lb])
  then show "trim (toLowerCase r) = js ''y''" by (simp add: l js_def)
qed

section \<open>Normalizing a reply\<close>

text \<open>
  C2: a reply is normalized to true exactly when its lower-cased form contains \<open>yes\<close>,
  or it is the token \<open>y\<close> in either case (a single \<open>y\<close> or \<open>Y\<close>, with nothing but
  white space around it), or it contains the thumbs-up symbol; every other reply is
  normalized to false.
\<close>

theorem isYes_iff:
  "(isYes r \<longleftrightarrow>
      js_includes (toLowerCase r) (js ''yes'') \<or> trim (toLowerCase r) = js ''y''
      \<or> js_includes r thumbsUp)
   \<and> (trim (toLowerCase r) = js ''y'' \<longleftrightarrow>
        (\<exists>a c b. r = a @ [c] @ b \<and> list_all isWhiteSpace a \<and> (c = 121 \<or> c = 89)
                 \<and> list_all isWhiteSpace b))"
proof -
  have 1: "sublist (js ''yes'') (trim (toLowerCase r)) \<longleftrightarrow> sublist (js ''yes'') (toLowerCase r)"
    by (rule sublist_trim) (simp_all add: js_yes isWhiteSpace_def)
  have 2: "sublist thumbsUp (trim (toLowerCase r)) \<longleftrightarrow> sublist thumbsUp r"
    using sublist_trim[of thumbsUp "toLowerCase r"] thumbsUp_lower[of r]
    by (simp add: thumbsUp_def isWhiteSpace_def)
  have "isYes r \<longleftrightarrow>
      js_includes (toLowerCase r) (js ''yes'') \<or> trim (toLowerCase r) = js ''y''
      \<or> js_includes r thumbsUp"
    unfolding isYes_def Let_def js_includes_def 1 2 by blast
  then show ?thesis using exact_token_y[of r] by (rule conjI)
qed

theorem isYes_iff_witness:
  "isYes (js ''Oh YES!'') \<and> isYes (js '' Y '') \<and> isYes (js ''ok '' @ thumbsUp)
   \<and> \<not> isYes (js ''yeah'') \<and> \<not> isYes (js ''no'')"
  using isYes_iff[of "js ''Oh YES!''", THEN conjunct1] isYes_iff[of "js '' Y ''", THEN conjunct1]
    isYes_iff[of "js ''ok '' @ thumbsUp", THEN conjunct1]
    isYes_iff[of "js ''yeah''", THEN conjunct1] isYes_iff[of "js ''no''", THEN conjunct1]
  by (simp add: js_def trim_def toLowerCase_def lowerUnit_def isWhiteSpace_def
        thumbsUp_def js_includes_def sublist_Cons_right)

section \<open>Choosing the date\<close>

lemma dateChoices_valid: "dateChoices replies = map Some (validValues 3 replies)"
proof (induction replies)
  case Nil
  show ?case by (simp add: dateChoices_def validValues_def List.map_filter_simps)
next
  case (Cons c cs)
  then show ?case
    by (cases "parseInt (trim c)")
       (auto simp: dateChoices_def validValues_def inRange_def)
qed

lemma foldl_num_add: "foldl num_add (Some a) (map Some vs) = Some (a + sum_list vs)"
  by (induction vs arbitrary: a) (auto simp: num_add_def)

lemma validValues_range: "v \<in> set (validValues n replies) \<Longrightarrow> 1 \<le> v \<and> v \<le> n"
  by (simp add: validValues_def)

lemma sum_list_bounds:
  assumes "\<And>v. v \<in> set vs \<Longrightarrow> 1 \<le> v \<and> v \<le> (n::int)"
  shows "int (length vs) \<le> sum_list vs \<and> sum_list vs \<le> n * int (length vs)"
  using assms
proof (induction vs)
  case Nil
  show ?case by simp
next
  case (Cons v vs)
  have "1 \<le> v \<and> v \<le> n" using Cons.prems by simp
  moreover have "int (length vs) \<le> sum_list vs \<and> sum_list vs \<le> n * int (length vs)"
    using Cons by simp
  ultimately show ?case by (simp add: algebra_simps)
qed

lemma Math_round_mean_bounds:
  assumes "0 < k" "int k \<le> t" "t \<le> n * int k"
  shows "1 \<le> Math_round (of_int t / of_nat k) \<and> Math_round (of_int t / of_nat k) \<le> n"
proof -
  let ?x = "(of_int t :: rat) / of_nat k"
  have kpos: "(0::rat) < of_nat k" using assms(1) by simp
  have "(of_int (int k) :: rat) \<le> of_int t" using assms(2) by (simp only: of_int_le_iff)
  then have lo: "1 \<le> ?x" using kpos by (simp add: le_divide_eq)
  have "(of_int t :: rat) \<le> of_int (n * int k)" using assms(3) by (simp only: of_int_le_iff)
  then have hi: "?x \<le> of_int n" using kpos by (simp add: divide_le_eq)
  have "1 \<le> \<lfloor>?x + 1 / 2\<rfloor>" using lo by (simp add: le_floor_iff)
  moreover have "?x + 1 / 2 < of_int (n + 1)" using hi by simp
  then have "\<lfloor>?x + 1 / 2\<rfloor> < n + 1" by (simp only: floor_less_iff)
  ultimately show ?thesis by (simp add: Math_round_def)
qed

lemma floor_rat_numeral:
  "\<lfloor>(numeral a :: rat) / numeral b\<rfloor> = numeral a div numeral b"
  using floor_divide_of_int_eq[of "numeral a" "numeral b", where ?'a = rat] by simp

lemma ceiling_rat_numeral:
  "\<lceil>(numeral a :: rat) / numeral b\<rceil> = - (- numeral a div numeral b)"
  using ceiling_divide_eq_div[of "numeral a" "numeral b", where ?'a = rat] by simp

lemma parseInt_examples:
  "parseInt (trim (js ''1'')) = Some 1"
  "parseInt (trim (js ''2'')) = Some 2"
  "parseInt (trim (js ''3'')) = Some 3"
  "parseInt (trim (js ''5'')) = Some 5"
  "parseInt (trim (js ''abc'')) = None"
  unfolding parseInt_def trim_def js_def
  by (simp_all only: Let_def)
     (simp_all add: isWhiteSpace_def isDigit_def digitValue_def digitsValue_def)

text \<open>
  C6: the date choice parses each reply as an integer, keeps the values in \<open>[1, 3]\<close>
  (three dates are offered), and selects \<open>round(mean) - 1\<close> of the kept values, or
  index 0 when none is kept; the selected index is always one of the three options. For
  the replies 1, 2, 5, abc the values 5 and abc are discarded and index 1 is selected.
\<close>

theorem chosenIndex_rounded_mean:
  "chosenIndex replies =
     Some (if validValues 3 replies = [] then 0
           else Math_round (of_int (sum_list (validValues 3 replies))
                              / of_nat (length (validValues 3 replies))) - 1)
   \<and> (\<exists>i. chosenIndex replies = Some i \<and> 0 \<le> i \<and> i \<le> 2)
   \<and> validValues 3 [js ''1'', js ''2'', js ''5'', js ''abc''] = [1, 2]
   \<and> chosenIndex [js ''1'', js ''2'', js ''5'', js ''abc''] = Some 1"
proof -
  let ?vs = "validValues 3 replies"
  have eq: "chosenIndex replies =
     Some (if ?vs = [] then 0
           else Math_round (of_int (sum_list ?vs) / of_nat (length ?vs)) - 1)"
  proof (cases ?vs)
    case Nil
    then show ?thesis by (simp add: chosenIndex_def dateChoices_valid)
  next
    case (Cons v vs)
    then show ?thesis
      by (simp add: chosenIndex_def dateChoices_valid foldl_num_add)
  qed
  have rng: "\<exists>i. chosenIndex replies = Some i \<and> 0 \<le> i \<and> i \<le> 2"
  proof (cases "?vs = []")
    case True
    then show ?thesis using eq by simp
  next
    case False
    then have k: "0 < length ?vs" by simp
    have b: "int (length ?vs) \<le> sum_list ?vs \<and> sum_list ?vs \<le> 3 * int (length ?vs)"
      by (rule sum_list_bounds) (rule validValues_range)
    have "1 \<le> Math_round (of_int (sum_list ?vs) / of_nat (length ?vs))
          \<and> Math_round (of_int (sum_list ?vs) / of_nat (length ?vs)) \<le> 3"
      using Math_round_mean_bounds[OF k, of "sum_list ?vs" 3] b by simp
    then show ?thesis using eq False by simp
  qed
  have ex1: "validValues 3 [js ''1'', js ''2'', js ''5'', js ''abc''] = [1, 2]"
    by (simp add: validValues_def parseInt_examples)
  have ex2: "chosenIndex [js ''1'', js ''2'', js ''5'', js ''abc''] = Some 1"
    by (simp add: chosenIndex_def dateChoices_valid ex1 num_add_def Math_round_def floor_rat_numeral)
  show ?thesis using eq rng ex1 ex2 by blast
qed

text \<open>
  C10: the mean can select an option nobody chose: the replies 1 and 3 select index 1,
  the second option, and no reply had the value 2.
\<close>

theorem mean_selects_unchosen_option:
  "validValues 3 [js ''1'', js ''3''] = [1, 3]
   \<and> chosenIndex [js ''1'', js ''3''] = Some 1
   \<and> (1 :: int) + 1 \<notin> set (validValues 3 [js ''1'', js ''3''])"
proof -
  have ex1: "validValues 3 [js ''1'', js ''3''] = [1, 3]"
    by (simp add: validValues_def parseInt_examples)
  have ex2: "chosenIndex [js ''1'', js ''3''] = Some 1"
    by (simp add: chosenIndex_def dateChoices_valid ex1 num_add_def Math_round_def floor_rat_numeral)
  show ?thesis using ex1 ex2 by simp
qed

section \<open>Collecting replies\<close>

subsection \<open>The handler on a fresh collector\<close>

lemma onNewMessage_rejected:
  "\<not> accepted gid m \<Longrightarrow> onNewMessage gid c m = c"
  by (auto simp: onNewMessage_def accepted_def)

lemma onNewMessage_accepted:
  "accepted gid m \<Longrightarrow>
   onNewMessage gid c m =
     (if senderKey m \<in> set (respondedParticipants c) then c
      else \<lparr> responses = map_set (responses c) (senderKey m) (msgText m),
             respondedParticipants = set_add (respondedParticipants c) (senderKey m) \<rparr>)"
  by (simp add: onNewMessage_def accepted_def set_has_def Let_def)

lemma collector_inv_new: "collector_inv newCollector"
  by (simp add: collector_inv_def newCollector_def)

lemma collector_inv_step:
  assumes "collector_inv c"
  shows "collector_inv (onNewMessage gid c m)"
proof (cases "accepted gid m \<and> senderKey m \<notin> set (respondedParticipants c)")
  case True
  then have fresh: "senderKey m \<notin> fst ` set (responses c)"
    using assms by (simp add: collector_inv_def)
  show ?thesis
    using True assms fresh
    by (simp add: onNewMessage_accepted collector_inv_def set_add_def map_set_fresh)
next
  case False
  then show ?thesis
    using assms by (cases "accepted gid m") (auto simp: onNewMessage_accepted onNewMessage_rejected)
qed

lemma collector_inv_foldl:
  "collector_inv c \<Longrightarrow> collector_inv (foldl (onNewMessage gid) c ms)"
  by (induction ms arbitrary: c) (simp_all add: collector_inv_step)

lemma find_snoc:
  "find P (xs @ [x]) = (case find P xs of Some y \<Rightarrow> Some y | None \<Rightarrow> if P x then Some x else None)"
  by (induction xs) auto

lemma first_per_sender:
  "map_of (responses (foldl (onNewMessage gid) newCollector ms)) s =
     map_option msgText (find (\<lambda>m. accepted gid m \<and> senderKey m = s) ms)"
proof (induction ms rule: rev_induct)
  case Nil
  show ?case by (simp add: newCollector_def)
next
  case (snoc m ms)
  let ?c = "foldl (onNewMessage gid) newCollector ms"
  have inv: "collector_inv ?c" by (rule collector_inv_foldl[OF collector_inv_new])
  have keys: "set (respondedParticipants ?c) = dom (map_of (responses ?c))"
    using inv by (simp add: collector_inv_def dom_map_of_conv_image_fst)
  show ?case
  proof (cases "accepted gid m")
    case False
    then show ?thesis using snoc by (simp add: onNewMessage_rejected find_snoc split: option.splits)
  next
    case True
    show ?thesis
    proof (cases "senderKey m \<in> set (respondedParticipants ?c)")
      case seen: True
      then obtain v where v: "map_of (responses ?c) (senderKey m) = Some v"
        using keys by auto
      show ?thesis
      proof (cases "senderKey m = s")
        case True
        then show ?thesis using snoc v seen \<open>accepted gid m\<close>
          by (auto simp: onNewMessage_accepted find_snoc split: option.splits)
      next
        case False
        then show ?thesis using snoc seen \<open>accepted gid m\<close>
          by (auto simp: onNewMessage_accepted find_snoc split: option.splits)
      qed
    next
      case unseen: False
      then have none: "map_of (responses ?c) (senderKey m) = None"
        using keys by auto
      show ?thesis
      proof (cases "senderKey m = s")
        case True
        then show ?thesis using snoc none unseen \<open>accepted gid m\<close>
          by (auto simp: onNewMessage_accepted find_snoc map_of_map_set split: option.splits)
      next
        case False
        then show ?thesis using snoc unseen \<open>accepted gid m\<close>
          by (auto simp: onNewMessage_accepted find_snoc map_of_map_set split: option.splits)
      qed
    qed
  qed
qed

lemma find_None_iff': "find P xs = None \<longleftrightarrow> (\<forall>x \<in> set xs. \<not> P x)"
  by (induction xs) auto

lemma senders_recorded:
  "fst ` set (responses (foldl (onNewMessage gid) newCollector ms))
     = senderKey ` {m \<in> set ms. accepted gid m}"
proof -
  let ?r = "responses (foldl (onNewMessage gid) newCollector ms)"
  have "s \<in> fst ` set ?r \<longleftrightarrow> s \<in> senderKey ` {m \<in> set ms. accepted gid m}" for s
  proof -
    have "s \<in> fst ` set ?r \<longleftrightarrow> map_of ?r s \<noteq> None"
      by (metis domIff dom_map_of_conv_image_fst)
    also have "\<dots> \<longleftrightarrow> find (\<lambda>m. accepted gid m \<and> senderKey m = s) ms \<noteq> None"
      by (simp add: first_per_sender)
    also have "\<dots> \<longleftrightarrow> s \<in> senderKey ` {m \<in> set ms. accepted gid m}"
      by (auto simp: find_None_iff')
    finally show ?thesis .
  qed
  then show ?thesis by blast
qed

lemma one_per_sender:
  "distinct (map fst (responses (foldl (onNewMessage gid) newCollector ms)))"
  using collector_inv_foldl[OF collector_inv_new, of gid ms] by (simp add: collector_inv_def)

subsection \<open>Delivery through the watcher\<close>

lemma deliver_fields [simp]:
  "watcher (deliver gid w m) = watcher w"
  "now (deliver gid w m) = now w"
  "outbox (deliver gid w m) = outbox w"
  "length (heap (deliver gid w m)) = length (heap w)"
  by (auto simp: deliver_def split: option.splits)

lemma deliver_all_fields [simp]:
  "watcher (foldl (deliver gid) w ms) = watcher w"
  "now (foldl (deliver gid) w ms) = now w"
  "outbox (foldl (deliver gid) w ms) = outbox w"
  "length (heap (foldl (deliver gid) w ms)) = length (heap w)"
  by (induction ms arbitrary: w) simp_all

lemma deliver_unwatched: "watcher w = None \<Longrightarrow> deliver gid w m = w"
  by (simp add: deliver_def)

lemma deliver_all_unwatched: "watcher w = None \<Longrightarrow> foldl (deliver gid) w ms = w"
  by (induction ms arbitrary: w) (simp_all add: deliver_unwatched)

lemma deliver_heap:
  "watcher w = Some a \<Longrightarrow> a < length (heap w) \<Longrightarrow>
   heap (deliver gid w m) = (heap w)[a := onNewMessage gid (heap w ! a) m]"
  by (simp add: deliver_def)

lemma deliver_all_heap:
  "watcher w = Some a \<Longrightarrow> a < length (heap w) \<Longrightarrow>
   heap (foldl (deliver gid) w ms) = (heap w)[a := foldl (onNewMessage gid) (heap w ! a) ms]"
proof (induction ms arbitrary: w)
  case Nil
  show ?case by simp
next
  case (Cons m ms)
  have "heap (foldl (deliver gid) (deliver gid w m) ms)
          = (heap (deliver gid w m))[a := foldl (onNewMessage gid) (heap (deliver gid w m) ! a) ms]"
    using Cons.prems by (intro Cons.IH) simp_all
  then show ?case using Cons.prems by (simp add: deliver_heap)
qed

lemma suspend_fields [simp]:
  "watcher (suspend gid d t w) = watcher w"
  "now (suspend gid d t w) = now w + d + int (lag t)"
  "outbox (suspend gid d t w) = outbox w"
  "length (heap (suspend gid d t w)) = length (heap w)"
  by (simp_all add: suspend_def)

lemma suspend_heap:
  "watcher w = Some a \<Longrightarrow> a < length (heap w) \<Longrightarrow>
   heap (suspend gid d t w) = (heap w)[a := foldl (onNewMessage gid) (heap w ! a) (arrivals t)]"
  by (simp add: suspend_def deliver_all_heap)

lemma suspend_unwatched:
  "watcher w = None \<Longrightarrow> heap (suspend gid d t w) = heap w"
  by (simp add: suspend_def deliver_all_unwatched)

subsection \<open>The polling loop along the trace\<close>

lemma atPoll_fields [simp]:
  "watcher (atPoll gid env w1 n) = watcher w1"
  "outbox (atPoll gid env w1 n) = outbox w1"
  "length (heap (atPoll gid env w1 n)) = length (heap w1)"
  "now (atPoll gid env w1 n) = now w1 + elapsed env n"
  by (induction n) simp_all

lemma atPoll_heap:
  assumes "watcher w1 = Some a" "a < length (heap w1)"
  shows "heap (atPoll gid env w1 n)
           = (heap w1)[a := foldl (onNewMessage gid) (heap w1 ! a) (delivered env n)]"
proof (induction n)
  case 0
  show ?case using assms by (simp add: suspend_heap)
next
  case (Suc n)
  have "heap (atPoll gid env w1 (Suc n))
          = (heap (atPoll gid env w1 n))
              [a := foldl (onNewMessage gid) (heap (atPoll gid env w1 n) ! a) (arrivals (env (Suc n)))]"
    using assms by (simp add: suspend_heap)
  then show ?case using assms by (simp add: Suc)
qed

lemma pollLoop_trace:
  "k' = Suc k \<Longrightarrow> w = atPoll gid env w1 k \<Longrightarrow>
   (\<forall>j<k. \<not> finished timeout startTime a (atPoll gid env w1 j)) \<Longrightarrow>
   \<exists>n. pollLoop gid timeout startTime env a k' w = atPoll gid env w1 n
       \<and> finished timeout startTime a (atPoll gid env w1 n)
       \<and> (\<forall>j<n. \<not> finished timeout startTime a (atPoll gid env w1 j))"
proof (induction gid timeout startTime env a k' w arbitrary: k rule: pollLoop.induct)
  case (1 gid timeout startTime env a k' w)
  show ?case
  proof (cases "finished timeout startTime a w")
    case True
    then have "pollLoop gid timeout startTime env a k' w = w"
      by (subst pollLoop.simps) (auto simp: finished_def)
    then show ?thesis using True "1.prems" by auto
  next
    case False
    then have c: "length (respondedParticipants (heap w ! a)) < 1" "\<not> now w - startTime > timeout"
      by (auto simp: finished_def)
    have step: "pollLoop gid timeout startTime env a k' w
                 = pollLoop gid timeout startTime env a (k' + 1) (suspend gid 1000 (env k') w)"
      using c by (subst pollLoop.simps) simp
    have k1: "k' + 1 = Suc (Suc k)" using "1.prems" by simp
    have w': "suspend gid 1000 (env k') w = atPoll gid env w1 (Suc k)"
      using "1.prems" by simp
    have nf: "\<forall>j<Suc k. \<not> finished timeout startTime a (atPoll gid env w1 j)"
      using "1.prems" False by (auto simp: less_Suc_eq)
    show ?thesis
      unfolding step
      by (rule "1.IH"[OF c(1) c(2) k1 w' nf])
  qed
qed

lemma collected_inv: "collector_inv (collected gid env n)"
  unfolding collected_def by (rule collector_inv_foldl[OF collector_inv_new])

lemma collected_empty_iff:
  "respondedParticipants (collected gid env n) = [] \<longleftrightarrow> responses (collected gid env n) = []"
  using collected_inv[of gid env n] by (auto simp: collector_inv_def)

lemma waitForResponses_trace:
  "\<exists>n. fst (waitForResponses ag timeout env w) = responses (collected (groupChatId ag) env n)
       \<and> snd (waitForResponses ag timeout env w)
           = w\<lparr> heap := heap w @ [collected (groupChatId ag) env n], watcher := None,
                now := now w + elapsed env n \<rparr>
       \<and> (responses (collected (groupChatId ag) env n) \<noteq> [] \<or> elapsed env n > timeout)
       \<and> (\<forall>j<n. responses (collected (groupChatId ag) env j) = [] \<and> elapsed env j \<le> timeout)"
proof -
  let ?gid = "groupChatId ag"
  let ?a = "length (heap w)"
  let ?w1 = "w\<lparr> heap := heap w @ [newCollector], watcher := Some ?a \<rparr>"
  have heap_at: "heap (atPoll ?gid env ?w1 n) = heap w @ [collected ?gid env n]" for n
    using atPoll_heap[of ?w1 ?a ?gid env n] by (simp add: collected_def)
  have fin: "finished timeout (now w) ?a (atPoll ?gid env ?w1 n)
               \<longleftrightarrow> responses (collected ?gid env n) \<noteq> [] \<or> elapsed env n > timeout" for n
    by (simp add: finished_def heap_at collected_empty_iff)
  obtain n where n:
    "pollLoop ?gid timeout (now w) env ?a (Suc 0) (atPoll ?gid env ?w1 0) = atPoll ?gid env ?w1 n"
    "finished timeout (now w) ?a (atPoll ?gid env ?w1 n)"
    "\<forall>j<n. \<not> finished timeout (now w) ?a (atPoll ?gid env ?w1 j)"
    using pollLoop_trace[of "Suc 0" 0 "atPoll ?gid env ?w1 0" ?gid env ?w1 timeout "now w" ?a]
    by auto
  have res: "waitForResponses ag timeout env w
               = (responses (heap ((atPoll ?gid env ?w1 n)\<lparr> watcher := None \<rparr>) ! ?a),
                  (atPoll ?gid env ?w1 n)\<lparr> watcher := None \<rparr>)"
    using n(1) by (simp add: waitForResponses_def Let_def)
  have w4: "(atPoll ?gid env ?w1 n)\<lparr> watcher := None \<rparr>
              = w\<lparr> heap := heap w @ [collected ?gid env n], watcher := None,
                   now := now w + elapsed env n \<rparr>"
    by (rule world.equality) (simp_all add: heap_at)
  have "fst (waitForResponses ag timeout env w) = responses (collected ?gid env n)"
    unfolding res by (simp add: heap_at)
  moreover have "snd (waitForResponses ag timeout env w)
           = w\<lparr> heap := heap w @ [collected ?gid env n], watcher := None,
                now := now w + elapsed env n \<rparr>"
    unfolding res using w4 by simp
  moreover have "responses (collected ?gid env n) \<noteq> [] \<or> elapsed env n > timeout"
    using n(2) fin by simp
  moreover have "\<forall>j<n. responses (collected ?gid env j) = [] \<and> elapsed env j \<le> timeout"
    using n(3) fin by auto
  ultimately show ?thesis by blast
qed

lemma waitForResponses_history_free:
  "fst (waitForResponses ag timeout env w) = fst (waitForResponses ag timeout env w')"
proof -
  let ?fin = "\<lambda>n. responses (collected (groupChatId ag) env n) \<noteq> [] \<or> elapsed env n > timeout"
  obtain n where n: "fst (waitForResponses ag timeout env w) = responses (collected (groupChatId ag) env n)"
    "?fin n" "\<forall>j<n. \<not> ?fin j"
    using waitForResponses_trace[of ag timeout env w] by (auto simp: not_less)
  obtain n' where n': "fst (waitForResponses ag timeout env w') = responses (collected (groupChatId ag) env n')"
    "?fin n'" "\<forall>j<n'. \<not> ?fin j"
    using waitForResponses_trace[of ag timeout env w'] by (auto simp: not_less)
  have "n = n'"
  proof (rule ccontr)
    assume "n \<noteq> n'"
    then consider "n < n'" | "n' < n" by linarith
    then show False
    proof cases
      case 1 then show False using n(2) n'(3) by blast
    next
      case 2 then show False using n'(2) n(3) by blast
    qed
  qed
  then show ?thesis using n(1) n'(1) by simp
qed

lemma entry_from_message:
  assumes "e \<in> set (responses (foldl (onNewMessage gid) newCollector ms))"
  shows "e \<in> (\<lambda>m. (senderKey m, msgText m)) ` {m \<in> set ms. accepted gid m}"
proof -
  let ?r = "responses (foldl (onNewMessage gid) newCollector ms)"
  obtain k v where e: "e = (k, v)" by (cases e)
  have "map_of ?r k = Some v"
    using assms e one_per_sender[of gid ms] by simp
  then have "map_option msgText (find (\<lambda>m. accepted gid m \<and> senderKey m = k) ms) = Some v"
    by (simp add: first_per_sender)
  then obtain m where m: "find (\<lambda>m. accepted gid m \<and> senderKey m = k) ms = Some m" "msgText m = v"
    by auto
  then have "m \<in> set ms \<and> accepted gid m \<and> senderKey m = k"
    by (auto simp: find_Some_iff)
  then show ?thesis using e m(2) by auto
qed



lemmas example_defs =
  exampleAgent_def reply_def anonymousReply_def idleWorld_def arrivingAt_def
  waitForResponses_def suspend_def deliver_def onNewMessage_def senderKey_def
  newCollector_def set_has_def set_add_def js_def Let_def pollLoop.simps

text \<open>
  C3: whatever messages are handed to the handler during a stage, in whatever order and
  with whatever repetitions, the Map returned holds exactly one entry per distinct sender
  of an accepted message, and that entry is the text of the first accepted message of
  that sender; \<open>waitForResponses\<close> returns the Map built this way from the messages
  delivered up to the poll at which it returns.
\<close>

theorem collect_first_message_per_sender:
  "distinct (map fst (responses (foldl (onNewMessage gid) newCollector ms)))
   \<and> fst ` set (responses (foldl (onNewMessage gid) newCollector ms))
        = senderKey ` {m \<in> set ms. accepted gid m}
   \<and> (\<forall>s. map_get (responses (foldl (onNewMessage gid) newCollector ms)) s
          = map_option msgText (find (\<lambda>m. accepted gid m \<and> senderKey m = s) ms))
   \<and> (\<exists>n. fst (waitForResponses ag timeout env w)
          = responses (foldl (onNewMessage (groupChatId ag)) newCollector (delivered env n)))"
proof -
  have "\<exists>n. fst (waitForResponses ag timeout env w)
          = responses (foldl (onNewMessage (groupChatId ag)) newCollector (delivered env n))"
    using waitForResponses_trace[of ag timeout env w] unfolding collected_def by blast
  then show ?thesis
    by (simp add: one_per_sender senders_recorded first_per_sender map_get_def)
qed

theorem collect_first_message_per_sender_witness:
  "fst (waitForResponses exampleAgent 5000
          (arrivingAt 2 [reply ''a'' ''1'', reply ''b'' ''2'', reply ''a'' ''3'']) idleWorld)
     = [(js ''a'', js ''1''), (js ''b'', js ''2'')]
   \<and> map_get (responses (foldl (onNewMessage (js ''chat1'')) newCollector
                 [reply ''a'' ''1'', reply ''b'' ''2'', reply ''a'' ''3''])) (js ''a'')
       = Some (js ''1'')"
proof -
  have run: "fst (waitForResponses exampleAgent 5000
          (arrivingAt 2 [reply ''a'' ''1'', reply ''b'' ''2'', reply ''a'' ''3'']) idleWorld)
     = [(js ''a'', js ''1''), (js ''b'', js ''2'')]"
    by (simp add: example_defs)
  have first: "map_option msgText
                 (find (\<lambda>m. accepted (js ''chat1'') m \<and> senderKey m = js ''a'')
                    [reply ''a'' ''1'', reply ''b'' ''2'', reply ''a'' ''3''])
               = Some (js ''1'')"
    by (simp add: reply_def accepted_def senderKey_def js_def)
  have "map_get (responses (foldl (onNewMessage (js ''chat1'')) newCollector
                 [reply ''a'' ''1'', reply ''b'' ''2'', reply ''a'' ''3''])) (js ''a'')
       = Some (js ''1'')"
    using collect_first_message_per_sender[of "js ''chat1''"
      "[reply ''a'' ''1'', reply ''b'' ''2'', reply ''a'' ''3'']" exampleAgent 5000
      "arrivingAt 2 [reply ''a'' ''1'', reply ''b'' ''2'', reply ''a'' ''3'']" idleWorld,
      THEN conjunct2, THEN conjunct2, THEN conjunct1, THEN spec, of "js ''a''"]
    by (rule trans) (rule first)
  then show ?thesis using run by (rule conjI[rotated])
qed




text \<open>
  C4, as the code has it: \<open>waitForResponses\<close> takes no minimum; it returns at the first
  poll at which at least one reply is recorded or the timeout has been exceeded. When it
  returns without a reply the timeout was exceeded and the result is the empty Map,
  returned as a value: \<open>askGroupQuestion\<close> then yields a normal result.
\<close>

theorem waitForResponses_first_reply_or_timeout:
  "\<exists>n. fst (waitForResponses ag timeout env w) = responses (collected (groupChatId ag) env n)
       \<and> now (snd (waitForResponses ag timeout env w)) = now w + elapsed env n
       \<and> (1 \<le> map_size (responses (collected (groupChatId ag) env n)) \<or> elapsed env n > timeout)
       \<and> (\<forall>j<n. map_size (responses (collected (groupChatId ag) env j)) < 1
                 \<and> elapsed env j \<le> timeout)
       \<and> (map_size (fst (waitForResponses ag timeout env w)) < 1 \<longrightarrow>
             fst (waitForResponses ag timeout env w) = [] \<and> elapsed env n > timeout)
       \<and> askGroupQuestion ag question timeout True env w
            = Inr (waitForResponses ag timeout env
                     (w\<lparr> outbox := outbox w @ [(groupChatId ag, question)] \<rparr>))"
proof -
  obtain n where n:
    "fst (waitForResponses ag timeout env w) = responses (collected (groupChatId ag) env n)"
    "snd (waitForResponses ag timeout env w)
           = w\<lparr> heap := heap w @ [collected (groupChatId ag) env n], watcher := None,
                now := now w + elapsed env n \<rparr>"
    "responses (collected (groupChatId ag) env n) \<noteq> [] \<or> elapsed env n > timeout"
    "\<forall>j<n. responses (collected (groupChatId ag) env j) = [] \<and> elapsed env j \<le> timeout"
    using waitForResponses_trace[of ag timeout env w] by blast
  have ask: "askGroupQuestion ag question timeout True env w
            = Inr (waitForResponses ag timeout env
                     (w\<lparr> outbox := outbox w @ [(groupChatId ag, question)] \<rparr>))"
    by (simp add: askGroupQuestion_def send_def)
  show ?thesis
    apply (rule exI[of _ n])
    using n ask by (auto simp: map_size_def Suc_le_eq)
qed

theorem waitForResponses_first_reply_or_timeout_witness:
  "fst (waitForResponses exampleAgent 5000 (arrivingAt 2 [reply ''a'' ''1'']) idleWorld)
     = [(js ''a'', js ''1'')]
   \<and> now (snd (waitForResponses exampleAgent 5000 (arrivingAt 2 [reply ''a'' ''1'']) idleWorld))
     = 2000
   \<and> fst (waitForResponses exampleAgent 5000 (arrivingAt 9 [reply ''a'' ''1'']) idleWorld) = []
   \<and> now (snd (waitForResponses exampleAgent 5000 (arrivingAt 9 [reply ''a'' ''1'']) idleWorld))
     = 6000
   \<and> (\<exists>n. elapsed (arrivingAt 9 [reply ''a'' ''1'']) n > 5000
          \<and> now (snd (waitForResponses exampleAgent 5000
                         (arrivingAt 9 [reply ''a'' ''1'']) idleWorld))
              = now idleWorld + elapsed (arrivingAt 9 [reply ''a'' ''1'']) n)"
proof -
  have 1: "fst (waitForResponses exampleAgent 5000 (arrivingAt 2 [reply ''a'' ''1'']) idleWorld)
     = [(js ''a'', js ''1'')]"
    by (simp add: example_defs)
  have 2: "now (snd (waitForResponses exampleAgent 5000 (arrivingAt 2 [reply ''a'' ''1'']) idleWorld))
     = 2000"
    by (simp add: example_defs)
  have 3: "fst (waitForResponses exampleAgent 5000 (arrivingAt 9 [reply ''a'' ''1'']) idleWorld) = []"
    by (simp add: example_defs)
  have 4: "now (snd (waitForResponses exampleAgent 5000 (arrivingAt 9 [reply ''a'' ''1'']) idleWorld))
     = 6000"
    by (simp add: example_defs)
  have 5: "\<exists>n. elapsed (arrivingAt 9 [reply ''a'' ''1'']) n > 5000
          \<and> now (snd (waitForResponses exampleAgent 5000
                         (arrivingAt 9 [reply ''a'' ''1'']) idleWorld))
              = now idleWorld + elapsed (arrivingAt 9 [reply ''a'' ''1'']) n"
  proof -
    obtain n where
      b: "now (snd (waitForResponses exampleAgent 5000
                         (arrivingAt 9 [reply ''a'' ''1'']) idleWorld))
              = now idleWorld + elapsed (arrivingAt 9 [reply ''a'' ''1'']) n"
      and e: "map_size (fst (waitForResponses exampleAgent 5000
                         (arrivingAt 9 [reply ''a'' ''1'']) idleWorld)) < 1 \<longrightarrow>
             fst (waitForResponses exampleAgent 5000
                         (arrivingAt 9 [reply ''a'' ''1'']) idleWorld) = []
             \<and> elapsed (arrivingAt 9 [reply ''a'' ''1'']) n > 5000"
      using waitForResponses_first_reply_or_timeout[of exampleAgent 5000
        "arrivingAt 9 [reply ''a'' ''1'']" idleWorld "js ''?''"]
      by (elim exE conjE)
    have "elapsed (arrivingAt 9 [reply ''a'' ''1'']) n > 5000"
      using e by (simp add: 3 map_size_def)
    then show ?thesis using b by (intro exI[of _ n] conjI)
  qed
  show ?thesis
    by (intro conjI) (rule 1, rule 2, rule 3, rule 4, rule 5)
qed

text \<open>
  C4 as stated fails for a minimum other than one: with a minimum of two, a single reply
  that arrives at once makes \<open>waitForResponses\<close> return one entry long before the
  timeout.
\<close>

theorem waitForResponses_minimum_counterexample:
  "\<not> (2 \<le> map_size (fst (waitForResponses exampleAgent 180000
                             (arrivingAt 0 [reply ''a'' ''1'']) idleWorld))
       \<or> now (snd (waitForResponses exampleAgent 180000
                     (arrivingAt 0 [reply ''a'' ''1'']) idleWorld)) - now idleWorld > 180000)"
  by (simp add: example_defs map_size_def)

lemma waitForResponses_world:
  "\<exists>c. snd (waitForResponses ag timeout env w)
         = w\<lparr> heap := heap w @ [c], watcher := None, now := now (snd (waitForResponses ag timeout env w)) \<rparr>
       \<and> fst (waitForResponses ag timeout env w) = responses c"
proof -
  obtain n where n:
    "fst (waitForResponses ag timeout env w) = responses (collected (groupChatId ag) env n)"
    "snd (waitForResponses ag timeout env w)
           = w\<lparr> heap := heap w @ [collected (groupChatId ag) env n], watcher := None,
                now := now w + elapsed env n \<rparr>"
    using waitForResponses_trace[of ag timeout env w] by blast
  have "now (snd (waitForResponses ag timeout env w)) = now w + elapsed env n"
    by (simp add: n(2))
  then show ?thesis using n by auto
qed

text \<open>
  C7: when \<open>waitForResponses\<close> returns, the watcher holds no handler; messages that
  arrive between two stages reach no collector; the next stage leaves the collectors of
  earlier stages as they were and returns a Map that is the same whatever happened before
  it started, each of whose entries comes from a message delivered during that stage.
\<close>

theorem consecutive_stages_do_not_leak:
  "(let s1 = waitForResponses ag t1 env1 w0;
        between = suspend (groupChatId ag) d idle (snd s1);
        s2 = waitForResponses ag t2 env2 between
    in watcher (snd s1) = None
       \<and> heap between = heap (snd s1)
       \<and> watcher (snd s2) = None
       \<and> take (length (heap (snd s1))) (heap (snd s2)) = heap (snd s1)
       \<and> responses (heap (snd s2) ! length (heap w0)) = fst s1
       \<and> fst s2 = fst (waitForResponses ag t2 env2 idleWorld)
       \<and> (\<exists>n. set (fst s2) \<subseteq> (\<lambda>m. (senderKey m, msgText m)) `
                    {m \<in> set (delivered env2 n). accepted (groupChatId ag) m}))"
proof -
  let ?s1 = "waitForResponses ag t1 env1 w0"
  let ?between = "suspend (groupChatId ag) d idle (snd ?s1)"
  let ?s2 = "waitForResponses ag t2 env2 ?between"
  obtain c1 where c1:
    "snd ?s1 = w0\<lparr> heap := heap w0 @ [c1], watcher := None, now := now (snd ?s1) \<rparr>"
    "fst ?s1 = responses c1"
    using waitForResponses_world[of ag t1 env1 w0] by blast
  have w1: "watcher (snd ?s1) = None" and h1: "heap (snd ?s1) = heap w0 @ [c1]"
    by (subst c1(1), simp)+
  have hb: "heap ?between = heap (snd ?s1)"
    using w1 by (rule suspend_unwatched)
  obtain c2 where c2:
    "snd ?s2 = ?between\<lparr> heap := heap ?between @ [c2], watcher := None, now := now (snd ?s2) \<rparr>"
    using waitForResponses_world[of ag t2 env2 ?between] by blast
  have w2: "watcher (snd ?s2) = None" and h2: "heap (snd ?s2) = heap ?between @ [c2]"
    by (subst c2, simp)+
  have keep: "take (length (heap (snd ?s1))) (heap (snd ?s2)) = heap (snd ?s1)"
    by (simp add: h2 hb)
  have old: "responses (heap (snd ?s2) ! length (heap w0)) = fst ?s1"
    by (simp add: h2 hb h1 c1(2) nth_append)
  have free: "fst ?s2 = fst (waitForResponses ag t2 env2 idleWorld)"
    by (rule waitForResponses_history_free)
  obtain n where n: "fst ?s2 = responses (collected (groupChatId ag) env2 n)"
    using waitForResponses_trace[of ag t2 env2 ?between] by blast
  have from2: "set (fst ?s2) \<subseteq> (\<lambda>m. (senderKey m, msgText m)) `
                    {m \<in> set (delivered env2 n). accepted (groupChatId ag) m}"
    unfolding n collected_def using entry_from_message by blast
  show ?thesis
    unfolding Let_def
    using w1 hb w2 keep old free from2 by blast
qed

theorem consecutive_stages_do_not_leak_witness:
  "fst (waitForResponses exampleAgent 5000 (arrivingAt 1 [reply ''a'' ''1'']) idleWorld)
     = [(js ''a'', js ''1'')]
   \<and> fst (waitForResponses exampleAgent 5000 (arrivingAt 2 [reply ''a'' ''2''])
           (suspend (js ''chat1'') 3000 \<lparr> arrivals = [reply ''a'' ''late''], lag = 0 \<rparr>
              (snd (waitForResponses exampleAgent 5000 (arrivingAt 1 [reply ''a'' ''1''])
                      idleWorld))))
     = [(js ''a'', js ''2'')]
   \<and> watcher (snd (waitForResponses exampleAgent 5000 (arrivingAt 1 [reply ''a'' ''1''])
                      idleWorld)) = None"
proof -
  let ?s1 = "waitForResponses exampleAgent 5000 (arrivingAt 1 [reply ''a'' ''1'']) idleWorld"
  let ?tick = "\<lparr> arrivals = [reply ''a'' ''late''], lag = 0 \<rparr>"
  note c7 = consecutive_stages_do_not_leak[of exampleAgent 5000 "arrivingAt 1 [reply ''a'' ''1'']"
      idleWorld 3000 ?tick 5000 "arrivingAt 2 [reply ''a'' ''2'']", unfolded Let_def]
  have g: "groupChatId exampleAgent = js ''chat1''" by (simp add: exampleAgent_def)
  have 1: "fst ?s1 = [(js ''a'', js ''1'')]"
    by (simp add: example_defs)
  have 2: "fst (waitForResponses exampleAgent 5000 (arrivingAt 2 [reply ''a'' ''2'']) idleWorld)
             = [(js ''a'', js ''2'')]"
    by (simp add: example_defs)
  have 3: "fst (waitForResponses exampleAgent 5000 (arrivingAt 2 [reply ''a'' ''2''])
                  (suspend (js ''chat1'') 3000 ?tick (snd ?s1)))
             = [(js ''a'', js ''2'')]"
    using c7[THEN conjunct2, THEN conjunct2, THEN conjunct2, THEN conjunct2, THEN conjunct2,
             THEN conjunct1] 2
    by (simp only: g)
  have 4: "watcher (snd ?s1) = None"
    by (rule c7[THEN conjunct1])
  show ?thesis
    by (intro conjI) (rule 1, rule 3, rule 4)
qed

section \<open>Connections\<close>

text \<open>The rounding with its local names unfolded, for evaluating at a given value.\<close>

lemma double_unfold:
  "double x =
     (if x = 0 then Finite 0
      else if pow2 1024 \<le> of_int (roundHalfEven (\<bar>x\<bar> / pow2 (max (ilog2 \<bar>x\<bar>) (- 1022) - 52)))
                             * pow2 (max (ilog2 \<bar>x\<bar>) (- 1022) - 52)
           then (if x < 0 then NegInfinity else PosInfinity)
           else Finite (if x < 0
                        then - (of_int (roundHalfEven (\<bar>x\<bar> / pow2 (max (ilog2 \<bar>x\<bar>) (- 1022) - 52)))
                                * pow2 (max (ilog2 \<bar>x\<bar>) (- 1022) - 52))
                        else of_int (roundHalfEven (\<bar>x\<bar> / pow2 (max (ilog2 \<bar>x\<bar>) (- 1022) - 52)))
                                * pow2 (max (ilog2 \<bar>x\<bar>) (- 1022) - 52)))"
  by (simp only: double_def Let_def)

lemmas double_eval =
  double_unfold ilog2_def pow2_def roundHalfEven_def bitlen.simps asDouble_def num_ceil_def
  num_ge_def minRequiredOf_def floor_rat_numeral ceiling_rat_numeral Let_def

lemma minRequiredOf_examples:
  "minRequiredOf (Suc (Suc 0)) (Finite (1 / 2)) = Finite 1"
  "minRequiredOf (Suc (Suc (Suc (Suc 0)))) (Finite (1 / 2)) = Finite 2"
  "minRequiredOf 25 (Finite (28 / 100)) = Finite 8"
  "minRequiredOf 10 (Finite (1 / 10)) = Finite 1"
proof -
  have two: "Suc (Suc 0) = 2" and four: "Suc (Suc (Suc (Suc 0))) = 4"
    by simp_all
  have "minRequiredOf 2 (Finite (1 / 2)) = Finite 1"
    by (simp add: double_eval)
  then show "minRequiredOf (Suc (Suc 0)) (Finite (1 / 2)) = Finite 1"
    unfolding two .
  have "minRequiredOf 4 (Finite (1 / 2)) = Finite 2"
    by (simp add: double_eval)
  then show "minRequiredOf (Suc (Suc (Suc (Suc 0)))) (Finite (1 / 2)) = Finite 2"
    unfolding four .
  show "minRequiredOf 25 (Finite (28 / 100)) = Finite 8"
    by (simp add: double_eval)
  show "minRequiredOf 10 (Finite (1 / 10)) = Finite 1"
    by (simp add: double_eval)
qed

lemmas oauth_example_defs =
  waitForConnections_def connectionLoop.simps connectedEmails_def osuspend_def serve_def
  oauthCallback_def truthy_def authorize_def requestsAt_def newManager_def map_has_def
  map_size_def minRequiredOf_examples num_ge_def js_def Let_def

text \<open>A callback that passes both guards and whose token exchange succeeds.\<close>

lemma oauthCallback_connections:
  "connections (snd (oauthCallback req m)) =
     (if truthy (code req) \<and> truthy (state req) \<and> exchange req \<noteq> None
      then map_set (connections m) (the (state req))
             \<lparr> email = the (state req),
               accessToken = access_token (the (exchange req)),
               refreshToken = refresh_token (the (exchange req)),
               connectedAt = clock m \<rparr>
      else connections m)"
  by (auto simp: oauthCallback_def truthy_def Let_def split: option.splits)

lemma oauthCallback_clock [simp]: "clock (snd (oauthCallback req m)) = clock m"
  by (auto simp: oauthCallback_def Let_def split: option.splits)

lemma serve_keys:
  "keys (connections (serve m req)) =
     (if truthy (code req) \<and> truthy (state req) \<and> exchange req \<noteq> None
      then insert (the (state req)) (keys (connections m)) else keys (connections m))"
  by (auto simp: serve_def oauthCallback_connections keys_def set_map_set)

lemma serve_distinct:
  "distinct (map fst (connections m)) \<Longrightarrow> distinct (map fst (connections (serve m req)))"
  by (simp add: serve_def oauthCallback_connections distinct_map_set)

lemma serve_clock [simp]: "clock (serve m req) = clock m"
  by (simp add: serve_def)

lemma serve_all_clock [simp]: "clock (foldl serve m reqs) = clock m"
  by (induction reqs arbitrary: m) simp_all

lemma serve_all_keys:
  "keys (connections (foldl serve m reqs)) =
     keys (connections m) \<union>
       {the (state req) | req. req \<in> set reqs \<and> truthy (code req) \<and> truthy (state req)
                               \<and> exchange req \<noteq> None}"
proof (induction reqs arbitrary: m)
  case Nil
  show ?case by simp
next
  case (Cons req reqs)
  show ?case
    unfolding foldl_Cons Cons.IH serve_keys by auto
qed

lemma serve_all_distinct:
  "distinct (map fst (connections m)) \<Longrightarrow> distinct (map fst (connections (foldl serve m reqs)))"
  by (induction reqs arbitrary: m) (simp_all add: serve_distinct)

lemma osuspend_keys: "keys (connections m) \<subseteq> keys (connections (osuspend d t m))"
  by (auto simp: osuspend_def serve_all_keys)

lemma osuspend_distinct:
  "distinct (map fst (connections m)) \<Longrightarrow> distinct (map fst (connections (osuspend d t m)))"
  by (simp add: osuspend_def serve_all_distinct)

lemma osuspend_clock [simp]: "clock (osuspend d t m) = clock m + d + int (olag t)"
  by (simp add: osuspend_def)

lemma managerAt_clock [simp]: "clock (managerAt env m n) = clock m + waited env n"
  by (induction n) simp_all

lemma managerAt_keys: "keys (connections m) \<subseteq> keys (connections (managerAt env m n))"
proof (induction n)
  case 0
  show ?case by simp
next
  case (Suc n)
  then show ?case using osuspend_keys[of "managerAt env m n" 2000 "env n"] by auto
qed

lemma managerAt_distinct:
  "distinct (map fst (connections m)) \<Longrightarrow> distinct (map fst (connections (managerAt env m n)))"
  by (induction n) (simp_all add: osuspend_distinct)

lemma connectionLoop_trace:
  "m = managerAt env m1 k \<Longrightarrow>
   (\<forall>j<k. \<not> quorum expectedEmails minRequired (managerAt env m1 j)
           \<and> \<not> clock (managerAt env m1 j) - startTime > timeout) \<Longrightarrow>
   \<exists>n. connectionLoop expectedEmails minRequired timeout startTime env k m = managerAt env m1 n
       \<and> (quorum expectedEmails minRequired (managerAt env m1 n)
            \<or> clock (managerAt env m1 n) - startTime > timeout)
       \<and> (\<forall>j<n. \<not> quorum expectedEmails minRequired (managerAt env m1 j)
                 \<and> \<not> clock (managerAt env m1 j) - startTime > timeout)"
proof (induction expectedEmails minRequired timeout startTime env k m rule: connectionLoop.induct)
  case (1 expectedEmails minRequired timeout startTime env k m)
  show ?case
  proof (cases "quorum expectedEmails minRequired m \<or> clock m - startTime > timeout")
    case True
    then have "connectionLoop expectedEmails minRequired timeout startTime env k m = m"
      by (subst connectionLoop.simps) (auto simp: quorum_def)
    then show ?thesis using True "1.prems" by auto
  next
    case False
    then have c: "\<not> num_ge (length (connectedEmails expectedEmails m)) minRequired"
      "\<not> clock m - startTime > timeout"
      by (auto simp: quorum_def)
    have step: "connectionLoop expectedEmails minRequired timeout startTime env k m
                 = connectionLoop expectedEmails minRequired timeout startTime env (k + 1)
                     (osuspend 2000 (env k) m)"
      using c by (subst connectionLoop.simps) simp
    have m': "osuspend 2000 (env k) m = managerAt env m1 (k + 1)"
      using "1.prems" by simp
    have nf: "\<forall>j<k + 1. \<not> quorum expectedEmails minRequired (managerAt env m1 j)
                 \<and> \<not> clock (managerAt env m1 j) - startTime > timeout"
      using "1.prems" False by (auto simp: less_Suc_eq)
    show ?thesis
      unfolding step
      by (rule "1.IH"[OF c(1) c(2) m' nf])
  qed
qed

lemma waitForConnections_trace:
  "\<exists>n. waitForConnections expectedEmails timeout minThreshold env m
          = (connections (managerAt env (m\<lparr> expectedParticipants := Some expectedEmails \<rparr>) n),
             managerAt env (m\<lparr> expectedParticipants := Some expectedEmails \<rparr>) n)
       \<and> (quorum expectedEmails (minRequiredOf (length expectedEmails) minThreshold)
             (managerAt env (m\<lparr> expectedParticipants := Some expectedEmails \<rparr>) n)
            \<or> waited env n > timeout)
       \<and> (\<forall>j<n. \<not> quorum expectedEmails (minRequiredOf (length expectedEmails) minThreshold)
                     (managerAt env (m\<lparr> expectedParticipants := Some expectedEmails \<rparr>) j)
                 \<and> waited env j \<le> timeout)"
proof -
  let ?m1 = "m\<lparr> expectedParticipants := Some expectedEmails \<rparr>"
  let ?req = "minRequiredOf (length expectedEmails) minThreshold"
  obtain n where n:
    "connectionLoop expectedEmails ?req timeout (clock ?m1) env 0 ?m1 = managerAt env ?m1 n"
    "quorum expectedEmails ?req (managerAt env ?m1 n)
       \<or> clock (managerAt env ?m1 n) - clock ?m1 > timeout"
    "\<forall>j<n. \<not> quorum expectedEmails ?req (managerAt env ?m1 j)
            \<and> \<not> clock (managerAt env ?m1 j) - clock ?m1 > timeout"
    using connectionLoop_trace[where m = ?m1 and env = env and ?m1.0 = ?m1 and k = 0
        and expectedEmails = expectedEmails and minRequired = ?req
        and startTime = "clock ?m1" and timeout = timeout]
    by auto
  show ?thesis
    apply (rule exI[of _ n])
    using n by (auto simp: waitForConnections_def Let_def)
qed

lemma map_set_idem: "map_set (map_set m k v) k v = map_set m k v"
  by (induction m) auto

lemma perform_keys: "keys (connections m) \<subseteq> keys (connections (perform m op))"
proof (cases op)
  case (OAuthCallback req)
  then show ?thesis using serve_keys[of m req] by (auto simp: serve_def)
next
  case (WaitForConnections expectedEmails timeout minThreshold env)
  obtain n where "snd (waitForConnections expectedEmails timeout minThreshold env m)
                    = managerAt env (m\<lparr> expectedParticipants := Some expectedEmails \<rparr>) n"
    using waitForConnections_trace[of expectedEmails timeout minThreshold env m] by auto
  then show ?thesis
    using WaitForConnections
      managerAt_keys[of "m\<lparr> expectedParticipants := Some expectedEmails \<rparr>" env n]
    by simp
next
  case (SendConnectionLinkToGroup chat sendOk)
  then show ?thesis by (simp add: sendConnectionLinkToGroup_def startServer_def Let_def)
qed (simp_all add: startServer_def stopServer_def)

lemma perform_distinct:
  assumes "distinct (map fst (connections m))"
  shows "distinct (map fst (connections (perform m op)))"
proof (cases op)
  case (OAuthCallback req)
  then show ?thesis using serve_distinct[OF assms, of req] by (simp add: serve_def)
next
  case (WaitForConnections expectedEmails timeout minThreshold env)
  obtain n where "snd (waitForConnections expectedEmails timeout minThreshold env m)
                    = managerAt env (m\<lparr> expectedParticipants := Some expectedEmails \<rparr>) n"
    using waitForConnections_trace[of expectedEmails timeout minThreshold env m] by auto
  then show ?thesis
    using WaitForConnections assms
      managerAt_distinct[of "m\<lparr> expectedParticipants := Some expectedEmails \<rparr>" env n]
    by simp
next
  case (SendConnectionLinkToGroup chat sendOk)
  then show ?thesis using assms by (simp add: sendConnectionLinkToGroup_def startServer_def Let_def)
qed (use assms in \<open>simp_all add: startServer_def stopServer_def\<close>)

lemma perform_all_keys: "keys (connections m) \<subseteq> keys (connections (foldl perform m ops))"
proof (induction ops arbitrary: m)
  case Nil
  show ?case by simp
next
  case (Cons op ops)
  show ?case using perform_keys[of m op] Cons[of "perform m op"] by auto
qed

lemma perform_all_distinct:
  "distinct (map fst (connections m)) \<Longrightarrow> distinct (map fst (connections (foldl perform m ops)))"
  by (induction ops arbitrary: m) (simp_all add: perform_distinct)

text \<open>
  C8: under any sequence of operations on the manager the set of connected participants
  never shrinks and the Map keeps one record per participant; a successful callback
  stores the record under the claimed identity, replacing an earlier record of that
  participant without adding an entry, and repeating it changes nothing.
\<close>

theorem connections_only_grow:
  "keys (connections m) \<subseteq> keys (connections (foldl perform m ops))
   \<and> (distinct (map fst (connections m))
        \<longrightarrow> distinct (map fst (connections (foldl perform m ops))))
   \<and> (truthy (code req) \<and> state req = Some e \<and> e \<noteq> [] \<and> exchange req = Some tk \<longrightarrow>
        map_get (connections (perform m (OAuthCallback req))) e
          = Some \<lparr> email = e, accessToken = access_token tk, refreshToken = refresh_token tk,
                   connectedAt = clock m \<rparr>
        \<and> keys (connections (perform m (OAuthCallback req))) = insert e (keys (connections m))
        \<and> (map_has (connections m) e \<longrightarrow>
             map_size (connections (perform m (OAuthCallback req))) = map_size (connections m))
        \<and> connections (perform (perform m (OAuthCallback req)) (OAuthCallback req))
             = connections (perform m (OAuthCallback req)))"
proof (intro conjI impI)
  show "keys (connections m) \<subseteq> keys (connections (foldl perform m ops))"
    by (rule perform_all_keys)
next
  assume "distinct (map fst (connections m))"
  then show "distinct (map fst (connections (foldl perform m ops)))"
    by (rule perform_all_distinct)
next
  assume ok: "truthy (code req) \<and> state req = Some e \<and> e \<noteq> [] \<and> exchange req = Some tk"
  let ?rec = "\<lparr> email = e, accessToken = access_token tk, refreshToken = refresh_token tk,
                connectedAt = clock m \<rparr>"
  have c: "connections (snd (oauthCallback req m)) = map_set (connections m) e ?rec"
    using ok by (simp add: oauthCallback_connections truthy_def)
  show "map_get (connections (perform m (OAuthCallback req))) e = Some ?rec"
    by (simp add: c map_get_def map_of_map_set)
  show "keys (connections (perform m (OAuthCallback req))) = insert e (keys (connections m))"
    by (simp add: c keys_def set_map_set)
  show "connections (perform (perform m (OAuthCallback req)) (OAuthCallback req))
             = connections (perform m (OAuthCallback req))"
    using ok by (simp add: oauthCallback_connections truthy_def map_set_idem)
  assume "map_has (connections m) e"
  then show "map_size (connections (perform m (OAuthCallback req))) = map_size (connections m)"
    by (simp add: c map_size_def map_has_def length_map_set)
qed

theorem connections_only_grow_witness:
  "keys (connections (foldl perform (newManager 0)
          [OAuthCallback (authorize ''a''), Elapse 5, OAuthCallback (authorize ''a''),
           StopServer, OAuthCallback (authorize ''b'')]))
     = {js ''a'', js ''b''}
   \<and> distinct (map fst (connections (foldl perform (newManager 0)
          [OAuthCallback (authorize ''a''), Elapse 5, OAuthCallback (authorize ''a''),
           StopServer, OAuthCallback (authorize ''b'')])))
   \<and> map_get (connections (perform (perform (newManager 0) (OAuthCallback (authorize ''a'')))
                  (OAuthCallback ((authorize ''a'')\<lparr> exchange :=
                      Some \<lparr> access_token = Some (js ''new''), refresh_token = None \<rparr> \<rparr>))))
        (js ''a'')
       = Some \<lparr> email = js ''a'', accessToken = Some (js ''new''), refreshToken = None,
                connectedAt = 0 \<rparr>"
proof -
  let ?ops = "[OAuthCallback (authorize ''a''), Elapse 5, OAuthCallback (authorize ''a''),
           StopServer, OAuthCallback (authorize ''b'')]"
  let ?again = "(authorize ''a'')\<lparr> exchange :=
                      Some \<lparr> access_token = Some (js ''new''), refresh_token = None \<rparr> \<rparr>"
  have 1: "keys (connections (foldl perform (newManager 0) ?ops)) = {js ''a'', js ''b''}"
    by (simp add: oauth_example_defs keys_def stopServer_def)
  have d0: "distinct (map fst (connections (newManager 0)))"
    by (simp add: newManager_def)
  have 2: "distinct (map fst (connections (foldl perform (newManager 0) ?ops)))"
    by (rule connections_only_grow[of "newManager 0" ?ops "authorize ''a''" "js ''a''"
          "\<lparr> access_token = Some (js ''at''), refresh_token = Some (js ''rt'') \<rparr>",
          THEN conjunct2, THEN conjunct1, THEN mp, OF d0])
  have ok: "truthy (code ?again) \<and> state ?again = Some (js ''a'') \<and> js ''a'' \<noteq> []
            \<and> exchange ?again = Some \<lparr> access_token = Some (js ''new''), refresh_token = None \<rparr>"
    by (simp add: authorize_def truthy_def js_def)
  have 3: "map_get (connections (perform (perform (newManager 0) (OAuthCallback (authorize ''a'')))
                  (OAuthCallback ?again))) (js ''a'')
       = Some \<lparr> email = js ''a'', accessToken = Some (js ''new''), refreshToken = None,
                connectedAt = 0 \<rparr>"
    using connections_only_grow[of "perform (newManager 0) (OAuthCallback (authorize ''a''))" "[]"
          ?again "js ''a''" "\<lparr> access_token = Some (js ''new''), refresh_token = None \<rparr>",
          THEN conjunct2, THEN conjunct2, THEN mp, OF ok, THEN conjunct1]
    by (simp add: newManager_def)
  show ?thesis
    by (intro conjI) (rule 1, rule 2, rule 3)
qed

lemma connectedEmails_keys:
  "connectedEmails expectedEmails m = filter (\<lambda>e. e \<in> keys (connections m)) expectedEmails"
  unfolding connectedEmails_def by (rule filter_cong) (simp_all add: map_has_def keys_def)

lemma connected_order_free:
  assumes "mset reqs = mset reqs'"
  shows "connectedEmails expectedEmails (foldl serve m reqs) = connectedEmails expectedEmails (foldl serve m reqs')"
proof -
  have "set reqs = set reqs'" using assms by (rule mset_eq_setD)
  then have "keys (connections (foldl serve m reqs)) = keys (connections (foldl serve m reqs'))"
    by (simp add: serve_all_keys)
  then show ?thesis by (simp add: connectedEmails_keys)
qed

text \<open>
  C5, as the code has it: \<open>waitForConnections\<close> computes
  \<open>minRequired = ceil(|roster| * minThreshold)\<close>, the product being that of doubles
  (2 for a roster of 4 and the threshold 0.5, 8 for 25 and 0.28, 1 for 10 and 0.1), and
  returns at the first two-second poll at which the number of connected roster
  participants has reached it or the timeout has been exceeded, also when nobody
  connected; the order in which callbacks arrive does not matter. What it returns is the
  manager's whole connection Map: it holds a record for every connected roster
  participant and every record there was before, whoever it belongs to.
\<close>

theorem waitForConnections_quorum_or_timeout:
  "(\<exists>n. fst (waitForConnections expectedEmails timeout minThreshold env m)
           = getConnections (snd (waitForConnections expectedEmails timeout minThreshold env m))
        \<and> snd (waitForConnections expectedEmails timeout minThreshold env m)
           = managerAt env (m\<lparr> expectedParticipants := Some expectedEmails \<rparr>) n
        \<and> clock (snd (waitForConnections expectedEmails timeout minThreshold env m))
           = clock m + waited env n
        \<and> (quorum expectedEmails (minRequiredOf (length expectedEmails) minThreshold)
              (managerAt env (m\<lparr> expectedParticipants := Some expectedEmails \<rparr>) n)
             \<or> waited env n > timeout)
        \<and> (\<forall>j<n. \<not> quorum expectedEmails
                       (minRequiredOf (length expectedEmails) minThreshold)
                       (managerAt env (m\<lparr> expectedParticipants := Some expectedEmails \<rparr>) j)
                  \<and> waited env j \<le> timeout))
   \<and> set (connectedEmails expectedEmails
             (snd (waitForConnections expectedEmails timeout minThreshold env m)))
        \<subseteq> keys (fst (waitForConnections expectedEmails timeout minThreshold env m))
   \<and> keys (connections m)
        \<subseteq> keys (fst (waitForConnections expectedEmails timeout minThreshold env m))
   \<and> (mset reqs = mset reqs' \<longrightarrow>
         connectedEmails expectedEmails (foldl serve m reqs)
           = connectedEmails expectedEmails (foldl serve m reqs'))
   \<and> minRequiredOf (length expectedEmails) minThreshold
        = num_ceil (num_times (double (of_nat (length expectedEmails))) (asDouble minThreshold))
   \<and> minRequiredOf 4 (Finite (1 / 2)) = Finite 2
   \<and> minRequiredOf 25 (Finite (28 / 100)) = Finite 8
   \<and> minRequiredOf 10 (Finite (1 / 10)) = Finite 1"
proof -
  let ?r = "waitForConnections expectedEmails timeout minThreshold env m"
  let ?m1 = "m\<lparr> expectedParticipants := Some expectedEmails \<rparr>"
  obtain n where n:
    "?r = (connections (managerAt env ?m1 n), managerAt env ?m1 n)"
    "quorum expectedEmails (minRequiredOf (length expectedEmails) minThreshold)
        (managerAt env ?m1 n) \<or> waited env n > timeout"
    "\<forall>j<n. \<not> quorum expectedEmails (minRequiredOf (length expectedEmails) minThreshold)
                     (managerAt env ?m1 j) \<and> waited env j \<le> timeout"
    using waitForConnections_trace[of expectedEmails timeout minThreshold env m] by blast
  have a: "\<exists>n. fst ?r = getConnections (snd ?r) \<and> snd ?r = managerAt env ?m1 n
        \<and> clock (snd ?r) = clock m + waited env n
        \<and> (quorum expectedEmails (minRequiredOf (length expectedEmails) minThreshold)
              (managerAt env ?m1 n) \<or> waited env n > timeout)
        \<and> (\<forall>j<n. \<not> quorum expectedEmails
                       (minRequiredOf (length expectedEmails) minThreshold)
                       (managerAt env ?m1 j) \<and> waited env j \<le> timeout)"
    apply (rule exI[of _ n])
    using n(2,3) by (simp add: n(1) getConnections_def)
  have b: "set (connectedEmails expectedEmails (snd ?r)) \<subseteq> keys (fst ?r)"
    by (auto simp: n(1) connectedEmails_keys)
  have c: "keys (connections m) \<subseteq> keys (fst ?r)"
    using managerAt_keys[of ?m1 env n] by (simp add: n(1))
  have d: "mset reqs = mset reqs' \<longrightarrow>
         connectedEmails expectedEmails (foldl serve m reqs)
           = connectedEmails expectedEmails (foldl serve m reqs')"
    using connected_order_free by blast
  have e: "minRequiredOf (length expectedEmails) minThreshold
        = num_ceil (num_times (double (of_nat (length expectedEmails))) (asDouble minThreshold))"
    by (simp only: minRequiredOf_def)
  have f: "minRequiredOf 4 (Finite (1 / 2)) = Finite 2"
    by (simp add: double_eval)
  show ?thesis
    by (intro conjI)
       (rule a, rule b, rule c, rule d, rule e, rule f, rule minRequiredOf_examples(3),
        rule minRequiredOf_examples(4))
qed

theorem waitForConnections_quorum_or_timeout_witness:
  "map fst (fst (waitForConnections [js ''a'', js ''b'', js ''c'', js ''d''] 600000 (Finite (1 / 2))
                   (requestsAt 1 [authorize ''d'', authorize ''b'']) (newManager 0)))
     = [js ''d'', js ''b'']
   \<and> clock (snd (waitForConnections [js ''a'', js ''b'', js ''c'', js ''d''] 600000 (Finite (1 / 2))
                   (requestsAt 1 [authorize ''d'', authorize ''b'']) (newManager 0))) = 4000
   \<and> fst (waitForConnections [js ''a'', js ''b'', js ''c'', js ''d''] 5000 (Finite (1 / 2))
                   (requestsAt 1 []) (newManager 0)) = []
   \<and> clock (snd (waitForConnections [js ''a'', js ''b'', js ''c'', js ''d''] 5000 (Finite (1 / 2))
                   (requestsAt 1 []) (newManager 0))) = 6000
   \<and> connectedEmails [js ''a'', js ''b'', js ''c'', js ''d'']
        (foldl serve (newManager 0) [authorize ''d'', authorize ''b''])
       = connectedEmails [js ''a'', js ''b'', js ''c'', js ''d'']
        (foldl serve (newManager 0) [authorize ''b'', authorize ''d''])"
proof -
  let ?roster = "[js ''a'', js ''b'', js ''c'', js ''d'']"
  have 1: "map fst (fst (waitForConnections ?roster 600000 (Finite (1 / 2))
                   (requestsAt 1 [authorize ''d'', authorize ''b'']) (newManager 0)))
     = [js ''d'', js ''b'']"
    by (simp add: oauth_example_defs)
  have 2: "clock (snd (waitForConnections ?roster 600000 (Finite (1 / 2))
                   (requestsAt 1 [authorize ''d'', authorize ''b'']) (newManager 0))) = 4000"
    by (simp add: oauth_example_defs)
  have 3: "fst (waitForConnections ?roster 5000 (Finite (1 / 2)) (requestsAt 1 []) (newManager 0)) = []"
    by (simp add: oauth_example_defs)
  have 4: "clock (snd (waitForConnections ?roster 5000 (Finite (1 / 2)) (requestsAt 1 []) (newManager 0)))
             = 6000"
    by (simp add: oauth_example_defs)
  have p: "mset [authorize ''d'', authorize ''b''] = mset [authorize ''b'', authorize ''d'']"
    by (simp add: add.commute)
  have 5: "connectedEmails ?roster (foldl serve (newManager 0) [authorize ''d'', authorize ''b''])
       = connectedEmails ?roster (foldl serve (newManager 0) [authorize ''b'', authorize ''d''])"
    by (rule waitForConnections_quorum_or_timeout[of ?roster 600000 "Finite (1 / 2)"
          "requestsAt 1 [authorize ''d'', authorize ''b'']" "newManager 0"
          "[authorize ''d'', authorize ''b'']" "[authorize ''b'', authorize ''d'']",
          THEN conjunct2, THEN conjunct2, THEN conjunct2, THEN conjunct1, THEN mp, OF p])
  show ?thesis
    by (intro conjI) (rule 1, rule 2, rule 3, rule 4, rule 5)
qed

text \<open>
  C5 as stated fails: an identity outside the roster that has authorized is returned
  together with the connected roster participants.
\<close>

theorem waitForConnections_returns_outsider_counterexample:
  "\<not> keys (fst (waitForConnections [js ''a'', js ''b''] 600000 (Finite (1 / 2))
                   (requestsAt 0 [authorize ''z'', authorize ''a'']) (newManager 0)))
       \<subseteq> set (connectedEmails [js ''a'', js ''b'']
                (snd (waitForConnections [js ''a'', js ''b''] 600000 (Finite (1 / 2))
                   (requestsAt 0 [authorize ''z'', authorize ''a'']) (newManager 0))))"
  by (simp add: oauth_example_defs keys_def)

section \<open>Confirmation by majority of the roster\<close>

lemma waitForResponses_distinct:
  "distinct (map fst (fst (waitForResponses ag timeout env w)))"
proof -
  obtain n where "fst (waitForResponses ag timeout env w)
                    = responses (collected (groupChatId ag) env n)"
    using waitForResponses_trace[of ag timeout env w] by blast
  then show ?thesis by (simp add: collected_def one_per_sender)
qed

lemma askConfirmation_sent:
  "askConfirmation ag question True env w
     = Inr (tallyConfirmation (participants ag)
              (fst (waitForResponses ag 180000 env
                 (w\<lparr> outbox := outbox w @
                    [(groupChatId ag, question @ [10, 10] @ js ''Reply with YES or NO'')] \<rparr>))),
            snd (waitForResponses ag 180000 env
                 (w\<lparr> outbox := outbox w @
                    [(groupChatId ag, question @ [10, 10] @ js ''Reply with YES or NO'')] \<rparr>)))"
  by (simp add: askConfirmation_def send_def split: prod.splits)

text \<open>
  C1: \<open>confirmed\<close> holds exactly when the number of replies normalized to true is at
  least \<open>ceil(n / 2)\<close> for the size \<open>n\<close> of the whole roster, whoever replied, for the
  tally of any Map of replies and for \<open>askConfirmation\<close> as a whole; with a roster of
  four, the replies yes and no give \<open>confirmed = false\<close>, the replies yes and yes give
  \<open>confirmed = true\<close>.
\<close>

theorem askConfirmation_majority_of_roster:
  "(distinct (map fst replies) \<longrightarrow>
      (confirmed (tallyConfirmation roster replies) \<longleftrightarrow>
         Math_ceil (of_nat (length roster) / 2)
           \<le> int (length (filter snd (confirmations (tallyConfirmation roster replies)))))
      \<and> confirmations (tallyConfirmation roster replies)
           = map (\<lambda>(person, response). (person, isYes response)) replies)
   \<and> (\<exists>r w'. askConfirmation ag question True env w = Inr (r, w')
         \<and> (confirmed r \<longleftrightarrow>
               Math_ceil (of_nat (length (participants ag)) / 2)
                 \<le> int (length (filter snd (confirmations r)))))
   \<and> (length roster4 = 4 \<and> p1 \<noteq> p2 \<longrightarrow>
         \<not> confirmed (tallyConfirmation roster4 [(p1, js ''yes''), (p2, js ''no'')])
         \<and> confirmed (tallyConfirmation roster4 [(p1, js ''yes''), (p2, js ''yes'')]))"
proof -
  have tally: "(confirmed (tallyConfirmation ps rs) \<longleftrightarrow>
         Math_ceil (of_nat (length ps) / 2)
           \<le> int (length (filter snd (confirmations (tallyConfirmation ps rs)))))
      \<and> confirmations (tallyConfirmation ps rs)
           = map (\<lambda>(person, response). (person, isYes response)) rs"
    if d: "distinct (map fst rs)" for ps rs
    using count_true[of rs] by (simp add: tallyConfirmation_eq[OF d] Math_ceil_half)
  have a: "distinct (map fst replies) \<longrightarrow>
      (confirmed (tallyConfirmation roster replies) \<longleftrightarrow>
         Math_ceil (of_nat (length roster) / 2)
           \<le> int (length (filter snd (confirmations (tallyConfirmation roster replies)))))
      \<and> confirmations (tallyConfirmation roster replies)
           = map (\<lambda>(person, response). (person, isYes response)) replies"
    using tally by blast
  let ?w = "w\<lparr> outbox := outbox w @
                    [(groupChatId ag, question @ [10, 10] @ js ''Reply with YES or NO'')] \<rparr>"
  let ?r = "tallyConfirmation (participants ag) (fst (waitForResponses ag 180000 env ?w))"
  have "confirmed ?r \<longleftrightarrow>
          Math_ceil (of_nat (length (participants ag)) / 2)
            \<le> int (length (filter snd (confirmations ?r)))"
    using tally[OF waitForResponses_distinct] by blast
  then have b: "\<exists>r w'. askConfirmation ag question True env w = Inr (r, w')
         \<and> (confirmed r \<longleftrightarrow>
               Math_ceil (of_nat (length (participants ag)) / 2)
                 \<le> int (length (filter snd (confirmations r))))"
    unfolding askConfirmation_sent by blast
  have y: "isYes (js ''yes'')" and nn: "\<not> isYes (js ''no'')"
    by (simp_all add: isYes_def js_def trim_def toLowerCase_def lowerUnit_def isWhiteSpace_def
          thumbsUp_def js_includes_def Let_def sublist_Cons_right)
  have c: "length roster4 = 4 \<and> p1 \<noteq> p2 \<longrightarrow>
         \<not> confirmed (tallyConfirmation roster4 [(p1, js ''yes''), (p2, js ''no'')])
         \<and> confirmed (tallyConfirmation roster4 [(p1, js ''yes''), (p2, js ''yes'')])"
    using y nn by (simp add: tallyConfirmation_eq)
  show ?thesis
    by (intro conjI) (rule a, rule b, rule c)
qed

theorem askConfirmation_majority_of_roster_witness:
  "map_option (confirmed \<circ> fst) (case askConfirmation exampleAgent (js ''Go?'') True
        (arrivingAt 1 [reply ''p1'' ''yes'', reply ''p2'' ''no'']) idleWorld
      of Inl e \<Rightarrow> None | Inr x \<Rightarrow> Some x) = Some False
   \<and> map_option (confirmed \<circ> fst) (case askConfirmation exampleAgent (js ''Go?'') True
        (arrivingAt 1 [reply ''p1'' ''yes'', reply ''p2'' ''yes'']) idleWorld
      of Inl e \<Rightarrow> None | Inr x \<Rightarrow> Some x) = Some True
   \<and> \<not> confirmed (tallyConfirmation (participants exampleAgent)
          [(js ''p1'', js ''yes''), (js ''p2'', js ''no'')])
   \<and> confirmed (tallyConfirmation (participants exampleAgent)
          [(js ''p1'', js ''yes''), (js ''p2'', js ''yes'')])"
proof -
  have yn: "isYes [121, 101, 115]" "\<not> isYes [110, 111]"
    by (simp_all add: isYes_def js_def trim_def toLowerCase_def lowerUnit_def isWhiteSpace_def
          thumbsUp_def js_includes_def Let_def sublist_Cons_right)
  have 1: "map_option (confirmed \<circ> fst) (case askConfirmation exampleAgent (js ''Go?'') True
        (arrivingAt 1 [reply ''p1'' ''yes'', reply ''p2'' ''no'']) idleWorld
      of Inl e \<Rightarrow> None | Inr x \<Rightarrow> Some x) = Some False"
    by (simp add: askConfirmation_def send_def tallyConfirmation_def confirmStep_def
          Math_ceil_def yn example_defs)
  have 2: "map_option (confirmed \<circ> fst) (case askConfirmation exampleAgent (js ''Go?'') True
        (arrivingAt 1 [reply ''p1'' ''yes'', reply ''p2'' ''yes'']) idleWorld
      of Inl e \<Rightarrow> None | Inr x \<Rightarrow> Some x) = Some True"
    by (simp add: askConfirmation_def send_def tallyConfirmation_def confirmStep_def
          Math_ceil_def yn example_defs)
  have h: "length (participants exampleAgent) = 4 \<and> js ''p1'' \<noteq> js ''p2''"
    by (simp add: exampleAgent_def js_def)
  note c1 = askConfirmation_majority_of_roster[of "[]" "[]" exampleAgent "[]"
      "arrivingAt 0 []" idleWorld "participants exampleAgent" "js ''p1''" "js ''p2''",
      THEN conjunct2, THEN conjunct2, THEN mp, OF h]
  show ?thesis
    by (intro conjI) (rule 1, rule 2, rule c1[THEN conjunct1], rule c1[THEN conjunct2])
qed

end
